theory Spec2Isabelle
  imports Main "HOL-Library.Word"
begin

unbundle bit_operations_syntax

section \<open>JavaScript numbers and bitwise operators\<close>

text \<open>
  The numbers that reach the bitwise operators of the driver are integer valued; they are
  modelled as \<open>int\<close>. A bitwise operator of JavaScript first converts each operand to a signed
  32-bit integer (\<open>ToInt32\<close>), takes the shift count modulo 32, and yields a signed 32-bit
  integer again. The wrap-around is written out.
\<close>

definition ToInt32 :: "int \<Rightarrow> int" where
  "ToInt32 x = (let m = x mod 2 ^ 32 in if m \<ge> 2 ^ 31 then m - 2 ^ 32 else m)"

definition js_shl :: "int \<Rightarrow> int \<Rightarrow> int" where
  "js_shl a b = ToInt32 (push_bit (nat (b mod 32)) (ToInt32 a))"

definition js_sar :: "int \<Rightarrow> int \<Rightarrow> int" where
  "js_sar a b = drop_bit (nat (b mod 32)) (ToInt32 a)"

definition js_or :: "int \<Rightarrow> int \<Rightarrow> int" where
  "js_or a b = ToInt32 a OR ToInt32 b"

definition js_and :: "int \<Rightarrow> int \<Rightarrow> int" where
  "js_and a b = ToInt32 a AND ToInt32 b"

section \<open>HciOpcode (Hci.ts)\<close>

record Opcode =
  ogf :: int
  ocf :: int

text \<open>\<^verbatim>\<open>return opcode.ogf << 10 | opcode.ocf;\<close> (the shift binds tighter than the or).\<close>

definition HciOpcode_build :: "Opcode \<Rightarrow> int" where
  "HciOpcode_build opcode = js_or (js_shl (ogf opcode) 10) (ocf opcode)"

text \<open>\<^verbatim>\<open>const ogf = opcode >> 10; const ocf = opcode & 1023; return { ogf, ocf };\<close>\<close>

definition HciOpcode_expand :: "int \<Rightarrow> Opcode" where
  "HciOpcode_expand opcode =
     (let ogf = js_sar opcode 10;
          ocf = js_and opcode 1023
      in \<lparr>ogf = ogf, ocf = ocf\<rparr>)"

section \<open>Buffers\<close>

text \<open>
  A byte is an 8-bit word and the contents of a Node.js \<open>Buffer\<close> a list of bytes. The
  accessors below follow the Buffer API: writes and numeric reads outside the buffer, and
  writes of values that do not fit the field, throw a \<open>RangeError\<close>; \<open>slice\<close> clamps its
  bounds to the buffer; \<open>copy\<close> copies as many bytes as fit into the target.
\<close>

type_synonym byte = "8 word"
type_synonym bytes = "byte list"

datatype HciParserError = InvalidPayloadSize | Busy | Timeout

text \<open>
  The values that are thrown or passed to \<open>reject\<close>: a \<open>RangeError\<close> of the Buffer API,
  the \<open>Error\<close> made by \<open>makeError\<close> (identified by its \<open>HciParserError\<close> code) and the
  \<open>HciError\<close> made by \<open>makeHciError\<close> (identified by its status code).
\<close>

datatype error = RangeError | ParserError HciParserError | HciError int

definition Buffer_alloc :: "nat \<Rightarrow> bytes" where
  "Buffer_alloc n = replicate n 0"

definition Buffer_slice :: "bytes \<Rightarrow> nat \<Rightarrow> nat \<Rightarrow> bytes" where
  "Buffer_slice buf start end = take (end - start) (drop start buf)"

definition Buffer_copy :: "bytes \<Rightarrow> bytes \<Rightarrow> nat \<Rightarrow> bytes" where
  "Buffer_copy source target targetStart =
     (let n = min (length source) (length target - targetStart)
      in take targetStart target @ take n source @ drop (targetStart + n) target)"

text \<open>The little-endian bytes of a value and the value of little-endian bytes.\<close>

fun le_bytes :: "nat \<Rightarrow> int \<Rightarrow> bytes" where
  "le_bytes 0 v = []"
| "le_bytes (Suc n) v = word_of_int (v mod 256) # le_bytes n (v div 256)"

fun le_value :: "bytes \<Rightarrow> int" where
  "le_value [] = 0"
| "le_value (b # bs) = uint b + 256 * le_value bs"

text \<open>
  \<^verbatim>\<open>buf.writeUIntLE(value, offset, byteLength)\<close> returns \<open>offset + byteLength\<close>, and throws when
  the value is outside \<open>[0, 2 ^ (8 * byteLength))\<close> or the field is outside the buffer.
\<close>

definition writeUIntLE :: "bytes \<Rightarrow> int \<Rightarrow> nat \<Rightarrow> nat \<Rightarrow> error + (bytes \<times> nat)" where
  "writeUIntLE buf v offset byteLength =
     (if v < 0 \<or> 2 ^ (8 * byteLength) \<le> v \<or> length buf < offset + byteLength
      then Inl RangeError
      else Inr (take offset buf @ le_bytes byteLength v @ drop (offset + byteLength) buf,
                offset + byteLength))"

definition writeUInt16LE :: "bytes \<Rightarrow> int \<Rightarrow> nat \<Rightarrow> error + bytes" where
  "writeUInt16LE buf v offset = map_sum id fst (writeUIntLE buf v offset 2)"

definition writeUInt8 :: "bytes \<Rightarrow> int \<Rightarrow> nat \<Rightarrow> error + bytes" where
  "writeUInt8 buf v offset = map_sum id fst (writeUIntLE buf v offset 1)"

definition readUIntLE :: "bytes \<Rightarrow> nat \<Rightarrow> nat \<Rightarrow> error + int" where
  "readUIntLE buf offset byteLength =
     (if length buf < offset + byteLength then Inl RangeError
      else Inr (le_value (take byteLength (drop offset buf))))"

definition readUInt8 :: "bytes \<Rightarrow> nat \<Rightarrow> error + int" where
  "readUInt8 buf offset = readUIntLE buf offset 1"

definition readUInt16LE :: "bytes \<Rightarrow> nat \<Rightarrow> error + int" where
  "readUInt16LE buf offset = readUIntLE buf offset 2"

definition readInt8 :: "bytes \<Rightarrow> nat \<Rightarrow> error + int" where
  "readInt8 buf offset =
     (if length buf < offset + 1 then Inl RangeError else Inr (sint (buf ! offset)))"

section \<open>The Hci command engine (Hci.ts)\<close>

text \<open>
  Modelled from the spec: the enumeration \<open>HciOgf\<close> is declared in \<open>HciOgfOcf.ts\<close>, which is
  not among the sources. The specification gives the OGF of Reset as \<open>0x03\<close>.
\<close>

definition HciOgf_ControlAndBasebandCommands :: int where
  "HciOgf_ControlAndBasebandCommands = 0x03"

text \<open>
  Modelled from the spec: the enumeration \<open>HciOcfControlAndBasebandCommands\<close> is declared in
  \<open>HciOgfOcf.ts\<close>, which is not among the sources. The specification gives the OCF of Reset
  as \<open>0x0003\<close>.
\<close>

definition HciOcfControlAndBasebandCommands_Reset :: int where
  "HciOcfControlAndBasebandCommands_Reset = 0x0003"

text \<open>
  Modelled from the spec: the enumeration \<open>HciErrorCode\<close> is declared in \<open>HciError.ts\<close>, which
  is not among the sources. The specification gives the status of Success as \<open>0x00\<close>.
\<close>

definition HciErrorCode_Success :: int where
  "HciErrorCode_Success = 0x00"

definition HCI_EVT_CMD_COMPLETE :: byte where
  "HCI_EVT_CMD_COMPLETE = 0x0e"

record HciCommand =
  opcode :: int
  params :: "bytes option"

record HciEvtCmdComplete =
  numHciPackets :: int
  evtOpcode :: int
  status :: int
  returnParameters :: bytes

text \<open>The state of a promise returned by \<open>send\<close>: pending (\<open>None\<close>) or settled.\<close>

datatype outcome = Resolved HciEvtCmdComplete | Rejected error

text \<open>The \<open>parser-error\<close> events emitted by \<open>onData\<close>, with the numbers of their messages.\<close>

datatype diagnostic =
    EvtInvalidPayloadSize nat nat
  | EvtCmdCompleteInvalidPayloadSize nat

text \<open>
  The engine, with the part of its environment that it acts on. Each call of \<open>send\<close> creates
  one promise; promises are numbered in the order of their creation, and the closures that
  \<open>send\<close> creates (\<open>complete\<close>, the timeout callback, the handler stored in \<open>onCmdComplete\<close>)
  are identified by the number of the promise they settle.
  \<^item> \<open>cmdTimeout\<close>, \<open>cmdOpcode\<close>, \<open>onCmdComplete\<close>: the fields of the class; \<open>onCmdComplete\<close>
    is \<open>None\<close> for \<open>null\<close>.
  \<^item> \<open>timers\<close>: the timeouts armed by \<open>setTimeout\<close> and neither fired nor cleared, each with
    the milliseconds left until it fires.
  \<^item> \<open>sent\<close>: the buffers handed to the injected \<open>send\<close> callback, oldest first.
  \<^item> \<open>promises\<close>: the state of every promise created so far.
  \<^item> \<open>emitted\<close>: the \<open>parser-error\<close> events emitted so far.
  The calls of \<open>console.log\<close> and \<open>debug\<close> are left out.
\<close>

record Hci =
  cmdTimeout :: nat
  cmdOpcode :: int
  onCmdComplete :: "nat option"
  timers :: "(nat \<times> nat) list"
  sent :: "bytes list"
  promises :: "outcome option list"
  emitted :: "diagnostic list"

text \<open>The constructor: \<^verbatim>\<open>this.cmdTimeout = init.cmdTimeout ?? 2000\<close>.\<close>

definition Hci_new :: "nat option \<Rightarrow> Hci" where
  "Hci_new init_cmdTimeout =
     \<lparr>cmdTimeout = (case init_cmdTimeout of None \<Rightarrow> 2000 | Some t \<Rightarrow> t),
      cmdOpcode = 0,
      onCmdComplete = None,
      timers = [],
      sent = [],
      promises = [],
      emitted = []\<rparr>"

text \<open>\<open>resolve\<close> and \<open>reject\<close> of promise \<open>p\<close>: a settled promise stays as it is.\<close>

definition settle :: "nat \<Rightarrow> outcome \<Rightarrow> Hci \<Rightarrow> Hci" where
  "settle p out s =
     (if p < length (promises s) \<and> promises s ! p = None
      then s\<lparr>promises := (promises s)[p := Some out]\<rparr>
      else s)"

definition clearTimeout :: "nat \<Rightarrow> Hci \<Rightarrow> Hci" where
  "clearTimeout p s = s\<lparr>timers := filter (\<lambda>t. fst t \<noteq> p) (timers s)\<rparr>"

definition emit :: "diagnostic \<Rightarrow> Hci \<Rightarrow> Hci" where
  "emit d s = s\<lparr>emitted := emitted s @ [d]\<rparr>"

text \<open>
  \<^verbatim>\<open>const complete = (err?: Error, evt?: HciEvtCmdComplete) => {
    clearTimeout(timeoutId); this.onCmdComplete = null; err ? reject(err) : resolve(evt!); };\<close>
  Its two callers pass either an error or an event, which is the argument \<open>r\<close>.
\<close>

definition complete :: "nat \<Rightarrow> error + HciEvtCmdComplete \<Rightarrow> Hci \<Rightarrow> Hci" where
  "complete p r s =
     (let s1 = clearTimeout p s;
          s2 = s1\<lparr>onCmdComplete := None\<rparr>
      in case r of Inl err \<Rightarrow> settle p (Rejected err) s2
                 | Inr evt \<Rightarrow> settle p (Resolved evt) s2)"

text \<open>The callback given to \<open>setTimeout\<close>.\<close>

definition timeoutCallback :: "nat \<Rightarrow> Hci \<Rightarrow> Hci" where
  "timeoutCallback p s = complete p (Inl (ParserError Timeout)) s"

text \<open>The handler that \<open>send\<close> stores in \<open>onCmdComplete\<close>.\<close>

definition cmdCompleteHandler :: "nat \<Rightarrow> HciEvtCmdComplete \<Rightarrow> Hci \<Rightarrow> Hci" where
  "cmdCompleteHandler p evt s =
     (if cmdOpcode s \<noteq> evtOpcode evt then s
      else if status evt = HciErrorCode_Success then complete p (Inr evt) s
      else complete p (Inl (HciError (status evt))) s)"

definition buildBuffer :: "HciCommand \<Rightarrow> error + bytes" where
  "buildBuffer cmd =
     (let payloadLength = (case params cmd of None \<Rightarrow> 0 | Some ps \<Rightarrow> length ps);
          buffer = Buffer_alloc (3 + payloadLength)
      in case writeUInt16LE buffer (opcode cmd) 0 of
           Inl e \<Rightarrow> Inl e
         | Inr buffer1 \<Rightarrow>
             (case writeUInt8 buffer1 (int payloadLength) 2 of
                Inl e \<Rightarrow> Inl e
              | Inr buffer2 \<Rightarrow>
                  (case params cmd of
                     None \<Rightarrow> Inr buffer2
                   | Some ps \<Rightarrow>
                       if payloadLength > 0 then Inr (Buffer_copy ps buffer2 3)
                       else Inr buffer2)))"

text \<open>
  \<open>send\<close> returns the new promise and the new state. An exception thrown in the executor of
  the promise (by \<open>buildBuffer\<close>) rejects the promise, after the timer has been armed and the
  handler and the opcode have been stored. The injected send callback is taken to return
  normally.
\<close>

definition send :: "Hci \<Rightarrow> HciCommand \<Rightarrow> nat \<times> Hci" where
  "send s cmd =
     (let p = length (promises s);
          s0 = s\<lparr>promises := promises s @ [None]\<rparr>
      in if onCmdComplete s0 \<noteq> None
         then (p, settle p (Rejected (ParserError Busy)) s0)
         else
           let s1 = s0\<lparr>timers := timers s0 @ [(p, cmdTimeout s0)]\<rparr>;
               s2 = s1\<lparr>onCmdComplete := Some p\<rparr>;
               s3 = s2\<lparr>cmdOpcode := opcode cmd\<rparr>
           in case buildBuffer cmd of
                Inl e \<Rightarrow> (p, settle p (Rejected e) s3)
              | Inr buffer \<Rightarrow> (p, s3\<lparr>sent := sent s3 @ [buffer]\<rparr>))"

definition reset :: "Hci \<Rightarrow> nat \<times> Hci" where
  "reset s =
     send s \<lparr>opcode = HciOpcode_build \<lparr>ogf = HciOgf_ControlAndBasebandCommands,
                                       ocf = HciOcfControlAndBasebandCommands_Reset\<rparr>,
             params = None\<rparr>"

text \<open>
  \<open>onData\<close>. The first equation is the case \<open>data.length >= 2\<close>, with \<open>data[0]\<close>, \<open>data[1]\<close> and
  \<open>data.slice(2)\<close>; the pattern of the Command Complete payload is the case
  \<open>payload.length >= 4\<close>, with \<open>payload[0]\<close>, \<open>payload.readUInt16LE(1)\<close>, \<open>payload[3]\<close> and
  \<open>payload.slice(4)\<close>.
\<close>

fun onData :: "Hci \<Rightarrow> bytes \<Rightarrow> Hci" where
  "onData s (eventCode # payloadLength # payload) =
     (if unat payloadLength \<noteq> length payload
      then emit (EvtInvalidPayloadSize (unat payloadLength) (length payload)) s
      else if eventCode = HCI_EVT_CMD_COMPLETE then
        (case payload of
           p0 # p1 # p2 # p3 # rest \<Rightarrow>
             (case onCmdComplete s of
                None \<Rightarrow> s
              | Some h \<Rightarrow>
                  cmdCompleteHandler h
                    \<lparr>numHciPackets = uint p0,
                     evtOpcode = le_value [p1, p2],
                     status = uint p3,
                     returnParameters = rest\<rparr> s)
         | _ \<Rightarrow> emit (EvtCmdCompleteInvalidPayloadSize (length payload)) s)
      else s)"
| "onData s _ = s"

text \<open>
  The timers of the runtime: when \<open>d\<close> milliseconds pass, the callbacks of the timeouts that
  are due run, in the order in which they were armed; the others have \<open>d\<close> milliseconds less
  to wait.
\<close>

definition elapse :: "nat \<Rightarrow> Hci \<Rightarrow> Hci" where
  "elapse d s =
     (let due = filter (\<lambda>t. snd t \<le> d) (timers s);
          waiting = map (\<lambda>t. (fst t, snd t - d)) (filter (\<lambda>t. \<not> snd t \<le> d) (timers s))
      in fold timeoutCallback (map fst due) (s\<lparr>timers := waiting\<rparr>))"

text \<open>What happens to the engine between two submissions: event bytes arrive, or time passes.\<close>

datatype event = Data bytes | Elapse nat

fun step :: "Hci \<Rightarrow> event \<Rightarrow> Hci" where
  "step s (Data d) = onData s d"
| "step s (Elapse d) = elapse d s"

fun run :: "Hci \<Rightarrow> event list \<Rightarrow> Hci" where
  "run s [] = s"
| "run s (e # es) = run (step s e) es"

fun elapsed :: "event list \<Rightarrow> nat" where
  "elapsed [] = 0"
| "elapsed (Data d # es) = elapsed es"
| "elapsed (Elapse d # es) = d + elapsed es"

text \<open>
  The event bytes that complete a pending command with opcode \<open>x\<close>: a Command Complete event
  with a consistent length byte, at least four bytes of payload, and the opcode \<open>x\<close>.
\<close>

fun isCmdComplete :: "bytes \<Rightarrow> bool" where
  "isCmdComplete (eventCode # payloadLength # payload) =
     (unat payloadLength = length payload \<and> eventCode = HCI_EVT_CMD_COMPLETE
      \<and> 4 \<le> length payload)"
| "isCmdComplete _ = False"

definition cmdCompleteOpcode :: "bytes \<Rightarrow> int" where
  "cmdCompleteOpcode data = le_value (take 2 (drop 3 data))"

fun completes :: "int \<Rightarrow> event \<Rightarrow> bool" where
  "completes x (Data d) = (isCmdComplete d \<and> cmdCompleteOpcode d = x)"
| "completes x (Elapse d) = False"

text \<open>
  The state of the slot and of the timers. In \<open>slotInv\<close>, an empty slot has no armed timeout
  and an occupied slot has exactly the timeout of its own promise; every state that the
  engine reaches has this property. \<open>pending p r x\<close>: promise \<open>p\<close> occupies the slot with
  opcode \<open>x\<close>, is not settled, and its timeout fires in \<open>r\<close> milliseconds. \<open>timedOut p\<close>:
  the slot is empty and promise \<open>p\<close> was rejected with Timeout.
\<close>

definition slotInv :: "Hci \<Rightarrow> bool" where
  "slotInv s =
     (case onCmdComplete s of
        None \<Rightarrow> timers s = []
      | Some p \<Rightarrow> map fst (timers s) = [p])"

definition pending :: "nat \<Rightarrow> nat \<Rightarrow> int \<Rightarrow> Hci \<Rightarrow> bool" where
  "pending p r x s =
     (onCmdComplete s = Some p \<and> timers s = [(p, r)] \<and> cmdOpcode s = x
      \<and> p < length (promises s) \<and> promises s ! p = None)"

definition timedOut :: "nat \<Rightarrow> Hci \<Rightarrow> bool" where
  "timedOut p s =
     (onCmdComplete s = None \<and> timers s = [] \<and> p < length (promises s)
      \<and> promises s ! p = Some (Rejected (ParserError Timeout)))"

section \<open>ATT PDU codecs\<close>

text \<open>
  \<open>Buffer.allocUnsafe(size)\<close> hands out memory that is not initialised. The bytes found there
  are the argument \<open>junk\<close>, by position.
\<close>

definition Buffer_allocUnsafe :: "(nat \<Rightarrow> byte) \<Rightarrow> nat \<Rightarrow> bytes" where
  "Buffer_allocUnsafe junk n = map junk [0..<n]"

text \<open>
  Modelled from the spec: the enumeration \<open>AttOpcode\<close> is declared in \<open>AttOpcode.ts\<close>, which is
  not among the sources. The specification gives the first byte of an Error Response as
  \<open>01\<close>.
\<close>

definition AttOpcode_ErrorRsp :: int where
  "AttOpcode_ErrorRsp = 0x01"

text \<open>
  Modelled from the spec: the enumeration \<open>AttOpcode\<close> is declared in \<open>AttOpcode.ts\<close>, which is
  not among the sources. The specification gives the first byte of a Find Information
  Response as \<open>05\<close>.
\<close>

definition AttOpcode_FindInformationRsp :: int where
  "AttOpcode_FindInformationRsp = 0x05"

record AttErrorRspMsg =
  requestOpcodeInError :: int
  attributeHandleInError :: int
  errorCode :: int

definition AttErrorRsp_size :: nat where
  "AttErrorRsp_size = 5"

definition AttErrorRsp_serialize :: "(nat \<Rightarrow> byte) \<Rightarrow> AttErrorRspMsg \<Rightarrow> error + bytes" where
  "AttErrorRsp_serialize junk data =
     (let buffer = Buffer_allocUnsafe junk AttErrorRsp_size;
          off = 0
      in case writeUIntLE buffer AttOpcode_ErrorRsp off 1 of
           Inl e \<Rightarrow> Inl e
         | Inr (buffer, off) \<Rightarrow>
        (case writeUIntLE buffer (requestOpcodeInError data) off 1 of
           Inl e \<Rightarrow> Inl e
         | Inr (buffer, off) \<Rightarrow>
        (case writeUIntLE buffer (attributeHandleInError data) off 2 of
           Inl e \<Rightarrow> Inl e
         | Inr (buffer, off) \<Rightarrow>
        (case writeUIntLE buffer (errorCode data) off 1 of
           Inl e \<Rightarrow> Inl e
         | Inr (buffer, off) \<Rightarrow> Inr buffer))))"

text \<open>
  \<open>deserialize\<close> returns \<open>None\<close> for \<open>null\<close>. The \<open>||\<close> evaluates \<open>buffer.readUInt8(0)\<close> first,
  which throws on an empty buffer. The three fields are read at the offsets 0, 1 and 3 of
  the source.
\<close>

definition AttErrorRsp_deserialize :: "bytes \<Rightarrow> error + AttErrorRspMsg option" where
  "AttErrorRsp_deserialize buffer =
     (case readUInt8 buffer 0 of
        Inl e \<Rightarrow> Inl e
      | Inr b0 \<Rightarrow>
          if b0 \<noteq> AttOpcode_ErrorRsp \<or> length buffer \<noteq> AttErrorRsp_size then Inr None
          else
            (case readUIntLE buffer 0 1 of
               Inl e \<Rightarrow> Inl e
             | Inr f0 \<Rightarrow>
            (case readUIntLE buffer 1 2 of
               Inl e \<Rightarrow> Inl e
             | Inr f1 \<Rightarrow>
            (case readUIntLE buffer 3 1 of
               Inl e \<Rightarrow> Inl e
             | Inr f2 \<Rightarrow>
                 Inr (Some \<lparr>requestOpcodeInError = f0,
                            attributeHandleInError = f1,
                            errorCode = f2\<rparr>)))))"

record AttFindInformationRspEntry =
  handle :: int
  uuid :: bytes

type_synonym AttFindInformationRspMsg = "AttFindInformationRspEntry list"

definition AttFindInformationRsp_minSize :: nat where
  "AttFindInformationRsp_minSize = 6"

text \<open>The two lookup tables; a key that is absent yields \<open>undefined\<close>, here \<open>None\<close>.\<close>

definition uuidFormatToSize :: "int \<Rightarrow> nat option" where
  "uuidFormatToSize format = (if format = 1 then Some 2 else if format = 2 then Some 16 else None)"

definition uuidSizeToFormat :: "nat \<Rightarrow> int option" where
  "uuidSizeToFormat uuidSize =
     (if uuidSize = 2 then Some 1 else if uuidSize = 16 then Some 2 else None)"

text \<open>
  \<open>getUuidSize\<close>: the loop over the entries, with the local \<open>uuidSize\<close> (\<open>None\<close> for \<open>null\<close>) as
  accumulator; the outer \<open>option\<close> of the result is \<open>None\<close> where the source returns \<open>null\<close>
  from inside the loop.
\<close>

fun getUuidSize_loop :: "AttFindInformationRspMsg \<Rightarrow> nat option \<Rightarrow> nat option" where
  "getUuidSize_loop [] uuidSize = uuidSize"
| "getUuidSize_loop (entry # rest) uuidSize =
     (let len = length (uuid entry) in
      case uuidSize of
        None \<Rightarrow>
          if len \<noteq> 2 \<and> len \<noteq> 16 then None
          else getUuidSize_loop rest (Some len)
      | Some u \<Rightarrow>
          if u \<noteq> len then None
          else getUuidSize_loop rest (Some u))"

definition getUuidSize :: "AttFindInformationRspMsg \<Rightarrow> nat option" where
  "getUuidSize data = getUuidSize_loop data None"

text \<open>The loop of \<open>serialize\<close> over the entries: the handle, then the UUID as it is.\<close>

fun AttFindInformationRsp_serialize_loop ::
  "AttFindInformationRspMsg \<Rightarrow> bytes \<Rightarrow> nat \<Rightarrow> error + bytes" where
  "AttFindInformationRsp_serialize_loop [] buffer off = Inr buffer"
| "AttFindInformationRsp_serialize_loop (entry # rest) buffer off =
     (case writeUIntLE buffer (handle entry) off 2 of
        Inl e \<Rightarrow> Inl e
      | Inr (buffer1, o1) \<Rightarrow>
          AttFindInformationRsp_serialize_loop rest
            (Buffer_copy (uuid entry) buffer1 o1)
            (o1 + min (length (uuid entry)) (length buffer1 - o1)))"

text \<open>
  \<open>serialize\<close> throws \<open>Error('Invalid ATT response data')\<close> when the entries do not agree on
  a UUID size of 2 or 16; this error is \<open>InvalidAttResponseData\<close>.
\<close>

datatype att_error = InvalidAttResponseData | BufferError error

definition AttFindInformationRsp_serialize ::
  "(nat \<Rightarrow> byte) \<Rightarrow> AttFindInformationRspMsg \<Rightarrow> att_error + bytes" where
  "AttFindInformationRsp_serialize junk data =
     (case getUuidSize data of
        None \<Rightarrow> Inl InvalidAttResponseData
      | Some uuidSize \<Rightarrow>
          (case uuidSizeToFormat uuidSize of
             None \<Rightarrow> Inl InvalidAttResponseData
           | Some format \<Rightarrow>
               let buffer = Buffer_allocUnsafe junk (2 + (2 + uuidSize) * length data);
                   off = 0
               in case writeUIntLE buffer AttOpcode_FindInformationRsp off 1 of
                    Inl e \<Rightarrow> Inl (BufferError e)
                  | Inr (buffer, off) \<Rightarrow>
                 (case writeUIntLE buffer format off 1 of
                    Inl e \<Rightarrow> Inl (BufferError e)
                  | Inr (buffer, off) \<Rightarrow>
                      map_sum BufferError id
                        (AttFindInformationRsp_serialize_loop data buffer off))))"

text \<open>
  The loop of \<open>deserialize\<close>. Each slice is reversed once, in place, and no later read
  touches its bytes again, so the entries are given with the reversed bytes as values.
\<close>

function AttFindInformationRsp_deserialize_loop ::
  "bytes \<Rightarrow> nat \<Rightarrow> nat \<Rightarrow> AttFindInformationRspMsg \<Rightarrow> error + AttFindInformationRspMsg" where
  "AttFindInformationRsp_deserialize_loop buffer uuidSize off result =
     (if off < length buffer then
        (case readUIntLE buffer off 2 of
           Inl e \<Rightarrow> Inl e
         | Inr h \<Rightarrow>
             AttFindInformationRsp_deserialize_loop buffer uuidSize (off + 2 + uuidSize)
               (result @ [\<lparr>handle = h,
                            uuid = rev (Buffer_slice buffer (off + 2) (off + 2 + uuidSize))\<rparr>]))
      else Inr result)"
  by pat_completeness auto
termination
  by (relation "measure (\<lambda>(buffer, uuidSize, off, result). length buffer - off)") auto

declare AttFindInformationRsp_deserialize_loop.simps [simp del]

definition AttFindInformationRsp_deserialize ::
  "bytes \<Rightarrow> error + AttFindInformationRspMsg option" where
  "AttFindInformationRsp_deserialize buffer =
     (case readUInt8 buffer 0 of
        Inl e \<Rightarrow> Inl e
      | Inr b0 \<Rightarrow>
          if b0 \<noteq> AttOpcode_FindInformationRsp
             \<or> length buffer < AttFindInformationRsp_minSize then Inr None
          else
            (case readUInt8 buffer 1 of
               Inl e \<Rightarrow> Inl e
             | Inr format \<Rightarrow>
                 (case uuidFormatToSize format of
                    None \<Rightarrow> Inr None
                  | Some uuidSize \<Rightarrow>
                      if uuidSize = 0 then Inr None
                      else if (length buffer - 2) mod uuidSize \<noteq> 0 then Inr None
                      else map_sum id Some
                             (AttFindInformationRsp_deserialize_loop buffer uuidSize 2 []))))"

section \<open>AdvDataParser (AdvDataParser.ts)\<close>

record AdvDataField =
  fieldType :: byte
  fieldData :: bytes

text \<open>
  The scanning loop of \<open>parse\<close>. Besides the fields (\<open>flds\<close>) it returns the indices at which it read
  an element of \<open>adBuffer\<close> (\<open>adBuffer[o++]\<close>, twice in the body), in the order of the reads.
  \<open>slice\<close> clamps to the buffer and reads no element.
\<close>

function scanFields ::
  "bytes \<Rightarrow> nat \<Rightarrow> AdvDataField list \<Rightarrow> nat list \<Rightarrow> AdvDataField list \<times> nat list" where
  "scanFields adBuffer off flds reads =
     (if off < length adBuffer then
        (if adBuffer ! off = 0 \<or> off + 1 \<ge> length adBuffer
         then scanFields adBuffer (off + 1) flds (reads @ [off])
         else scanFields adBuffer (off + 2 + (unat (adBuffer ! off) - 1))
                (flds @ [\<lparr>fieldType = adBuffer ! (off + 1),
                             fieldData = Buffer_slice adBuffer (off + 2)
                                           (off + 2 + (unat (adBuffer ! off) - 1))\<rparr>])
                (reads @ [off, off + 1]))
      else (flds, reads))"
  by pat_completeness auto
termination
  by (relation "measure (\<lambda>(adBuffer, off, flds, reads). length adBuffer - off)") auto

declare scanFields.simps [simp del]

text \<open>\<open>buf.toString('hex')\<close>: two lower-case hexadecimal digits for each byte.\<close>

definition hexDigit :: "nat \<Rightarrow> char" where
  "hexDigit n = ''0123456789abcdef'' ! (n mod 16)"

definition toHex :: "bytes \<Rightarrow> string" where
  "toHex buf = concat (map (\<lambda>b. [hexDigit (unat b div 16), hexDigit (unat b mod 16)]) buf)"

text \<open>
  The result of \<open>parse\<close>. A property that is absent or \<open>undefined\<close> is \<open>None\<close>. The decoding of
  \<open>toString('utf8')\<close> belongs to the runtime; it is the parameter \<open>utf8\<close> of \<open>parseField\<close>.
\<close>

record AdvData =
  flags :: "int option"
  serviceUuids :: "string list option"
  serviceSolicitationUuids :: "string list option"
  localName :: "string option"
  shortenedLocalName :: "string option"
  completeLocalName :: "string option"
  txPowerLevel :: "int option"
  manufacturerData :: "(int \<times> bytes) option"
  serviceData :: "(string \<times> bytes) list option"

definition AdvData_empty :: AdvData where
  "AdvData_empty =
     \<lparr>flags = None, serviceUuids = None, serviceSolicitationUuids = None, localName = None,
      shortenedLocalName = None, completeLocalName = None, txPowerLevel = None,
      manufacturerData = None, serviceData = None\<rparr>"

text \<open>
  The loops \<^verbatim>\<open>for (let j = 0; j < field.data.length; j += w)\<close> that collect UUIDs of \<open>w\<close> bytes
  (\<open>w\<close> is 2, 4 or 16 in the source) into a list without duplicates. \<open>skipEmpty\<close> is set for
  the loop over 128-bit service class UUIDs, which has the test \<^verbatim>\<open>if (!uuid) continue;\<close>.
\<close>

function collectUuids ::
  "bool \<Rightarrow> nat \<Rightarrow> bytes \<Rightarrow> nat \<Rightarrow> string list option \<Rightarrow> string list option" where
  "collectUuids skipEmpty w fdata j uuids =
     (if j < length fdata \<and> 0 < w then
        (let u = toHex (rev (Buffer_slice fdata j (j + w))) in
         if skipEmpty \<and> u = [] then collectUuids skipEmpty w fdata (j + w) uuids
         else
           (let us = (case uuids of None \<Rightarrow> [] | Some us \<Rightarrow> us) in
            collectUuids skipEmpty w fdata (j + w)
              (Some (if u \<in> set us then us else us @ [u]))))
      else uuids)"
  by pat_completeness auto
termination
  by (relation "measure (\<lambda>(skipEmpty, w, fdata, j, uuids). length fdata - j)") auto

declare collectUuids.simps [simp del]

text \<open>The entry that the three service data cases push, for a UUID of \<open>w\<close> bytes.\<close>

definition pushServiceData :: "nat \<Rightarrow> bytes \<Rightarrow> AdvData \<Rightarrow> AdvData" where
  "pushServiceData w fdata advData =
     advData\<lparr>serviceData :=
       Some ((case serviceData advData of None \<Rightarrow> [] | Some sd \<Rightarrow> sd)
             @ [(toHex (rev (Buffer_slice fdata 0 w)),
                 Buffer_slice fdata w (length fdata))])\<rparr>"

text \<open>
  \<open>parseField\<close>, with the cases of the \<open>switch\<close> in the order of the source. \<open>readInt8(0)\<close> and
  \<open>readUInt16LE(0)\<close> throw when the data is too short; \<open>field.data[0]\<close> is \<open>undefined\<close> on
  empty data. \<^verbatim>\<open>!advData.localName\<close> holds for an absent and for an empty name.
\<close>

definition parseField :: "(bytes \<Rightarrow> string) \<Rightarrow> AdvData \<Rightarrow> AdvDataField \<Rightarrow> error + AdvData" where
  "parseField utf8 advData field =
     (let t = fieldType field; fdata = fieldData field in
      if t = 0x01 then
        Inr (advData\<lparr>flags := (case fdata of [] \<Rightarrow> None | b # _ \<Rightarrow> Some (uint b))\<rparr>)
      else if t = 0x02 \<or> t = 0x03 then
        Inr (advData\<lparr>serviceUuids := collectUuids False 2 fdata 0 (serviceUuids advData)\<rparr>)
      else if t = 0x04 \<or> t = 0x05 then
        Inr (advData\<lparr>serviceUuids := collectUuids False 4 fdata 0 (serviceUuids advData)\<rparr>)
      else if t = 0x06 \<or> t = 0x07 then
        Inr (advData\<lparr>serviceUuids := collectUuids True 16 fdata 0 (serviceUuids advData)\<rparr>)
      else if t = 0x08 then
        (let advData1 = advData\<lparr>shortenedLocalName := Some (utf8 fdata)\<rparr> in
         if localName advData1 = None \<or> localName advData1 = Some []
         then Inr (advData1\<lparr>localName := shortenedLocalName advData1\<rparr>)
         else Inr advData1)
      else if t = 0x09 then
        (let advData1 = advData\<lparr>completeLocalName := Some (utf8 fdata)\<rparr> in
         Inr (advData1\<lparr>localName := completeLocalName advData1\<rparr>))
      else if t = 0x0A then
        (case readInt8 fdata 0 of
           Inl e \<Rightarrow> Inl e
         | Inr v \<Rightarrow> Inr (advData\<lparr>txPowerLevel := Some v\<rparr>))
      else if t = 0x14 then
        Inr (advData\<lparr>serviceSolicitationUuids :=
               collectUuids False 2 fdata 0 (serviceSolicitationUuids advData)\<rparr>)
      else if t = 0x1F then
        Inr (advData\<lparr>serviceSolicitationUuids :=
               collectUuids False 4 fdata 0 (serviceSolicitationUuids advData)\<rparr>)
      else if t = 0x15 then
        Inr (advData\<lparr>serviceSolicitationUuids :=
               collectUuids False 16 fdata 0 (serviceSolicitationUuids advData)\<rparr>)
      else if t = 0x16 then Inr (pushServiceData 2 fdata advData)
      else if t = 0x20 then Inr (pushServiceData 4 fdata advData)
      else if t = 0x21 then Inr (pushServiceData 16 fdata advData)
      else if t = 0xFF then
        (case readUInt16LE fdata 0 of
           Inl e \<Rightarrow> Inl e
         | Inr ident \<Rightarrow>
             Inr (advData\<lparr>manufacturerData :=
                    Some (ident, Buffer_slice fdata 2 (length fdata))\<rparr>))
      else Inr advData)"

text \<open>\<^verbatim>\<open>for (const field of fields) { this.parseField(ad, field); }\<close>: an exception ends the loop.\<close>

fun parseFields :: "(bytes \<Rightarrow> string) \<Rightarrow> AdvData \<Rightarrow> AdvDataField list \<Rightarrow> error + AdvData" where
  "parseFields utf8 ad [] = Inr ad"
| "parseFields utf8 ad (field # flds) =
     (case parseField utf8 ad field of
        Inl e \<Rightarrow> Inl e
      | Inr ad1 \<Rightarrow> parseFields utf8 ad1 flds)"

text \<open>\<open>parse\<close>; its argument is \<open>advReport.data\<close>, which is \<open>null\<close> (\<open>None\<close>) or a buffer.\<close>

definition parse :: "(bytes \<Rightarrow> string) \<Rightarrow> bytes option \<Rightarrow> error + AdvData" where
  "parse utf8 advReport_data =
     (case advReport_data of
        None \<Rightarrow> Inr AdvData_empty
      | Some adBuffer \<Rightarrow> parseFields utf8 AdvData_empty (fst (scanFields adBuffer 0 [] [])))"

text \<open>
  A decoder for concrete inputs: on bytes below \<open>0x80\<close> UTF-8 is ASCII, one character for
  each byte.
\<close>

definition asciiDecode :: "bytes \<Rightarrow> string" where
  "asciiDecode buf = map (\<lambda>b. char_of (unat b)) buf"

section \<open>LeEncrypt (HciLeController.ts)\<close>

text \<open>
  \<open>reverse\<close> rewrites the bytes of a buffer in place and \<open>copy\<close> writes into another buffer,
  so the buffers of this codec are modelled as views of a memory: \<open>cells\<close> holds the byte at
  each address and the addresses below \<open>brk\<close> are allocated. A buffer is the range of
  \<open>byteLength\<close> addresses from \<open>byteOffset\<close>. \<open>allocUnsafe\<close> hands out the next free range
  with the bytes that happen to be there.
\<close>

record Memory =
  cells :: "nat \<Rightarrow> byte"
  brk :: nat

record HeapBuffer =
  byteOffset :: nat
  byteLength :: nat

definition contents :: "Memory \<Rightarrow> HeapBuffer \<Rightarrow> bytes" where
  "contents m b = map (cells m) [byteOffset b ..< byteOffset b + byteLength b]"

definition allocated :: "Memory \<Rightarrow> HeapBuffer \<Rightarrow> bool" where
  "allocated m b = (byteOffset b + byteLength b \<le> brk m)"

definition disjoint :: "HeapBuffer \<Rightarrow> HeapBuffer \<Rightarrow> bool" where
  "disjoint a b =
     (byteOffset a + byteLength a \<le> byteOffset b \<or> byteOffset b + byteLength b \<le> byteOffset a)"

definition heap_allocUnsafe :: "nat \<Rightarrow> Memory \<Rightarrow> HeapBuffer \<times> Memory" where
  "heap_allocUnsafe n m = (\<lparr>byteOffset = brk m, byteLength = n\<rparr>, m\<lparr>brk := brk m + n\<rparr>)"

definition heap_reverse :: "HeapBuffer \<Rightarrow> Memory \<Rightarrow> Memory" where
  "heap_reverse b m =
     m\<lparr>cells := (\<lambda>i. if byteOffset b \<le> i \<and> i < byteOffset b + byteLength b
                       then cells m (byteOffset b + (byteOffset b + byteLength b - 1 - i))
                       else cells m i)\<rparr>"

definition heap_copy :: "HeapBuffer \<Rightarrow> HeapBuffer \<Rightarrow> nat \<Rightarrow> Memory \<Rightarrow> Memory" where
  "heap_copy source target targetStart m =
     (let n = min (byteLength source) (byteLength target - targetStart);
          start = byteOffset target + targetStart
      in m\<lparr>cells := (\<lambda>i. if start \<le> i \<and> i < start + n
                            then cells m (byteOffset source + (i - start))
                            else cells m i)\<rparr>)"

text \<open>
  Modelled from the spec: the enumeration \<open>HciErrorCode\<close> is declared in \<open>HciError.ts\<close>, which
  is not among the sources. The specification names the code \<open>InvalidCommandParameter\<close>; its
  number in the Bluetooth Core Specification is \<open>0x12\<close>.
\<close>

definition HciErrorCode_InvalidCommandParameter :: int where
  "HciErrorCode_InvalidCommandParameter = 0x12"

text \<open>\<open>LeEncrypt.inParams\<close> returns the payload buffer; the model returns the memory as well.\<close>

definition LeEncrypt_inParams ::
  "HeapBuffer \<Rightarrow> HeapBuffer \<Rightarrow> Memory \<Rightarrow> error + (HeapBuffer \<times> Memory)" where
  "LeEncrypt_inParams key plaintextData m =
     (if byteLength key \<noteq> 16 \<or> byteLength plaintextData \<noteq> 16
      then Inl (HciError HciErrorCode_InvalidCommandParameter)
      else
        (case heap_allocUnsafe 32 m of
           (payload, m1) \<Rightarrow>
             let m2 = heap_reverse key m1;
                 m3 = heap_copy key payload 0 m2;
                 m4 = heap_reverse plaintextData m3;
                 m5 = heap_copy plaintextData payload 16 m4
             in Inr (payload, m5)))"

section \<open>LeSupportedStates (HciLeController.ts)\<close>

datatype LeState =
    ScanUndirectAdv
  | ConnScanUndirectAdv
  | NonConnNonScanUndirectAdv
  | HighDutyConnDirectAdv
  | LowDutyConnDirectAdv
  | ActiveScanning
  | PassiveScanning
  | Initiating
  | ConnectionMasterRole
  | ConnectionSlaveRole

definition LeAllowedStates :: "LeState list list" where
  "LeAllowedStates =
     [[NonConnNonScanUndirectAdv],
      [ScanUndirectAdv],
      [ConnScanUndirectAdv],
      [HighDutyConnDirectAdv],
      [PassiveScanning],
      [ActiveScanning],
      [Initiating],
      [ConnectionSlaveRole],
      [NonConnNonScanUndirectAdv, PassiveScanning],
      [ScanUndirectAdv, PassiveScanning],
      [ConnScanUndirectAdv, PassiveScanning],
      [HighDutyConnDirectAdv, PassiveScanning],
      [NonConnNonScanUndirectAdv, ActiveScanning],
      [ScanUndirectAdv, ActiveScanning],
      [ConnScanUndirectAdv, ActiveScanning],
      [HighDutyConnDirectAdv, ActiveScanning],
      [NonConnNonScanUndirectAdv, Initiating],
      [ScanUndirectAdv, Initiating],
      [NonConnNonScanUndirectAdv, ConnectionMasterRole],
      [ScanUndirectAdv, ConnectionMasterRole],
      [NonConnNonScanUndirectAdv, ConnectionSlaveRole],
      [ScanUndirectAdv, ConnectionSlaveRole],
      [PassiveScanning, Initiating],
      [ActiveScanning, Initiating],
      [PassiveScanning, ConnectionMasterRole],
      [ActiveScanning, ConnectionMasterRole],
      [PassiveScanning, ConnectionSlaveRole],
      [ActiveScanning, ConnectionSlaveRole],
      [Initiating, ConnectionMasterRole],
      [LowDutyConnDirectAdv],
      [LowDutyConnDirectAdv, PassiveScanning],
      [LowDutyConnDirectAdv, ActiveScanning],
      [ConnScanUndirectAdv, Initiating],
      [HighDutyConnDirectAdv, Initiating],
      [LowDutyConnDirectAdv, Initiating],
      [ConnScanUndirectAdv, ConnectionMasterRole],
      [HighDutyConnDirectAdv, ConnectionMasterRole],
      [LowDutyConnDirectAdv, ConnectionMasterRole],
      [ConnScanUndirectAdv, ConnectionSlaveRole],
      [HighDutyConnDirectAdv, ConnectionSlaveRole],
      [LowDutyConnDirectAdv, ConnectionSlaveRole],
      [Initiating, ConnectionSlaveRole]]"

record LeSupportedStates =
  states :: "LeState list list"

text \<open>
  \<^verbatim>\<open>for (let b = 0n; b <= 41n; b++) { if ((bitmask & (1n << b)) !== 0n) { states.push(...); } }\<close>
  The bitmask is a \<open>bigint\<close>, an integer without bound. The index \<open>b\<close> stays below the 42
  entries of the table.
\<close>

function fromBitmask_loop :: "int \<Rightarrow> nat \<Rightarrow> LeState list list \<Rightarrow> LeState list list" where
  "fromBitmask_loop bitmask b sts =
     (if b \<le> 41 then
        fromBitmask_loop bitmask (b + 1)
          (if bitmask AND push_bit b 1 \<noteq> 0 then sts @ [LeAllowedStates ! b] else sts)
      else sts)"
  by pat_completeness auto
termination
  by (relation "measure (\<lambda>(bitmask, b, sts). 42 - b)") auto

declare fromBitmask_loop.simps [simp del]

definition fromBitmask :: "int \<Rightarrow> LeSupportedStates" where
  "fromBitmask bitmask = \<lparr>states = fromBitmask_loop bitmask 0 []\<rparr>"

section \<open>Properties of HciOpcode\<close>

lemma ToInt32_id: "0 \<le> x \<Longrightarrow> x < 2 ^ 31 \<Longrightarrow> ToInt32 x = x"
  by (simp add: ToInt32_def)

lemma HciOpcode_build_value:
  assumes "g < 64" "c < 1024"
  shows "HciOpcode_build \<lparr>ogf = int g, ocf = int c\<rparr> = push_bit 10 (int g) OR int c"
proof -
  have g: "ToInt32 (int g) = int g" using assms by (simp add: ToInt32_id)
  have c: "ToInt32 (int c) = int c" using assms by (simp add: ToInt32_id)
  have "push_bit 10 (int g) < 2 ^ 31" using assms by (simp add: push_bit_eq_mult)
  then have p: "ToInt32 (push_bit 10 (int g)) = push_bit 10 (int g)"
    by (simp add: ToInt32_id)
  show ?thesis by (simp add: HciOpcode_build_def js_or_def js_shl_def g c p)
qed

text \<open>
  Claim C5. For every pair of field values \<open>(ogf, ocf)\<close> with \<open>ogf < 64\<close> and
  \<open>ocf < 1024\<close>, expanding the opcode built from them returns exactly \<open>{ogf, ocf}\<close>.
  The field values are the unsigned 6-bit and 10-bit quantities of the data model, hence
  natural numbers.
\<close>

theorem HciOpcode_expand_build:
  assumes "g < 64" "c < 1024"
  shows "HciOpcode_expand (HciOpcode_build \<lparr>ogf = int g, ocf = int c\<rparr>)
         = \<lparr>ogf = int g, ocf = int c\<rparr>"
proof -
  define v where "v = push_bit 10 (int g) OR int c"
  have pg: "push_bit 10 (int g) < 2 ^ 16" using assms by (simp add: push_bit_eq_mult)
  have "v < 2 ^ 16" unfolding v_def using assms pg by (intro OR_upper) auto
  moreover have "0 \<le> v" by (simp add: v_def)
  ultimately have t: "ToInt32 v = v" by (simp add: ToInt32_id)
  have tc: "take_bit 10 (int c) = int c" using assms by (simp add: take_bit_int_eq_self)
  have dc: "drop_bit 10 (int c) = 0" using assms by (simp add: drop_bit_eq_div)
  have d: "drop_bit 10 v = int g" by (simp add: v_def drop_bit_push_bit dc)
  have "v AND 1023 = take_bit 10 v" by (simp add: take_bit_eq_mask mask_eq_exp_minus_1)
  also have "\<dots> = int c" by (simp add: v_def take_bit_push_bit tc)
  finally have a: "v AND 1023 = int c" .
  have k: "ToInt32 1023 = 1023" by (simp add: ToInt32_def)
  have b: "HciOpcode_build \<lparr>ogf = int g, ocf = int c\<rparr> = v"
    by (simp add: HciOpcode_build_value[OF assms] v_def)
  show ?thesis
    by (simp add: b HciOpcode_expand_def js_sar_def js_and_def t d a k)
qed

theorem HciOpcode_expand_build_witness:
  "(63::nat) < 64 \<and> (1023::nat) < 1024 \<and>
   HciOpcode_expand (HciOpcode_build \<lparr>ogf = int 63, ocf = int 1023\<rparr>)
     = \<lparr>ogf = int 63, ocf = int 1023\<rparr>"
  using HciOpcode_expand_build [of 63 1023] by simp

section \<open>Properties of the command engine\<close>

lemma le_bytes_length [simp]: "length (le_bytes n v) = n"
  by (induction n arbitrary: v) auto

lemma buildBuffer_Inr_iff:
  "(\<exists>buf. buildBuffer cmd = Inr buf) \<longleftrightarrow>
     (0 \<le> opcode cmd \<and> opcode cmd < 65536
      \<and> (case params cmd of None \<Rightarrow> True | Some ps \<Rightarrow> length ps \<le> 255))"
  by (auto simp: buildBuffer_def writeUInt16LE_def writeUInt8_def writeUIntLE_def
      Buffer_alloc_def Let_def split: option.splits)

lemma buildBuffer_layout:
  assumes "buildBuffer cmd = Inr buf"
  shows "buf = le_bytes 2 (opcode cmd)
              @ [word_of_int (int (length (case params cmd of None \<Rightarrow> [] | Some ps \<Rightarrow> ps)))]
              @ (case params cmd of None \<Rightarrow> [] | Some ps \<Rightarrow> ps)"
  using assms
  by (auto simp: buildBuffer_def writeUInt16LE_def writeUInt8_def writeUIntLE_def
      Buffer_alloc_def Buffer_copy_def Let_def numeral_2_eq_2
      split: option.splits if_splits)

lemma buildBuffer_param_len:
  assumes "buildBuffer cmd = Inr buf"
  shows "length buf = 3 + length (case params cmd of None \<Rightarrow> [] | Some ps \<Rightarrow> ps)
         \<and> unat (buf ! 2) = length (case params cmd of None \<Rightarrow> [] | Some ps \<Rightarrow> ps)"
proof -
  let ?ps = "case params cmd of None \<Rightarrow> [] | Some ps \<Rightarrow> ps"
  from assms have "\<exists>b. buildBuffer cmd = Inr b" by blast
  then have len: "length ?ps \<le> 255"
    unfolding buildBuffer_Inr_iff by (auto split: option.splits)
  have "unat (word_of_int (int (length ?ps)) :: byte) = length ?ps"
    using len by (simp add: unat_of_nat take_bit_nat_eq_self)
  then show ?thesis
    unfolding buildBuffer_layout[OF assms] by (simp add: numeral_2_eq_2 nth_append)
qed

lemma le_value_le_bytes_2:
  assumes "0 \<le> v" "v < 65536"
  shows "le_value (le_bytes 2 v) = v"
proof -
  have a: "uint (word_of_int (v mod 256) :: byte) = v mod 256"
    by (simp add: uint_word_of_int take_bit_eq_mod)
  have "v div 256 < 256" using assms by simp
  moreover have "0 \<le> v div 256" using assms by simp
  ultimately have "(v div 256) mod 256 = v div 256" by simp
  then have b: "uint (word_of_int ((v div 256) mod 256) :: byte) = v div 256"
    by (simp add: uint_word_of_int take_bit_eq_mod)
  show ?thesis by (simp add: numeral_2_eq_2 a b)
qed

lemma reset_opcode:
  "HciOpcode_build \<lparr>ogf = HciOgf_ControlAndBasebandCommands,
                    ocf = HciOcfControlAndBasebandCommands_Reset\<rparr> = 0x0C03"
  by (simp add: HciOpcode_build_def js_or_def js_shl_def ToInt32_def
      HciOgf_ControlAndBasebandCommands_def HciOcfControlAndBasebandCommands_Reset_def)

lemma buildBuffer_reset: "buildBuffer \<lparr>opcode = 0x0C03, params = None\<rparr> = Inr [0x03, 0x0C, 0x00]"
  by (simp add: buildBuffer_def writeUInt16LE_def writeUInt8_def writeUIntLE_def
      Buffer_alloc_def Let_def numeral_2_eq_2 numeral_3_eq_3)


lemma settle_fields [simp]:
  "onCmdComplete (settle p out s) = onCmdComplete s"
  "timers (settle p out s) = timers s"
  "cmdOpcode (settle p out s) = cmdOpcode s"
  "cmdTimeout (settle p out s) = cmdTimeout s"
  "sent (settle p out s) = sent s"
  "emitted (settle p out s) = emitted s"
  "length (promises (settle p out s)) = length (promises s)"
  by (simp_all add: settle_def)

lemma settle_pending:
  "p < length (promises s) \<Longrightarrow> promises s ! p = None \<Longrightarrow>
   promises (settle p out s) = (promises s)[p := Some out]"
  by (simp add: settle_def)

lemma send_busy:
  assumes "onCmdComplete s = Some q"
  shows "send s cmd =
           (length (promises s),
            s\<lparr>promises := promises s @ [Some (Rejected (ParserError Busy))]\<rparr>)"
  using assms by (simp add: send_def settle_def Let_def nth_append)

lemma send_idle:
  assumes "onCmdComplete s = None" "buildBuffer cmd = Inr pkt"
  shows "send s cmd =
           (length (promises s),
            s\<lparr>promises := promises s @ [None],
              timers := timers s @ [(length (promises s), cmdTimeout s)],
              onCmdComplete := Some (length (promises s)),
              cmdOpcode := opcode cmd,
              sent := sent s @ [pkt]\<rparr>)"
  using assms by (simp add: send_def Let_def)

text \<open>
  Claim C1. If a command is pending (the slot \<open>onCmdComplete\<close> is occupied), a new submission
  is rejected at once with Busy: its promise is rejected in the state that \<open>send\<close> returns,
  nothing is handed to the send callback, and the slot, the recorded opcode, the armed
  timeout and the promises created before are unchanged.
\<close>

theorem send_while_pending_Busy:
  assumes "onCmdComplete s = Some q" and "send s cmd = (p, s')"
  shows "promises s' ! p = Some (Rejected (ParserError Busy))
         \<and> sent s' = sent s
         \<and> onCmdComplete s' = Some q
         \<and> cmdOpcode s' = cmdOpcode s
         \<and> timers s' = timers s
         \<and> take p (promises s') = promises s"
  using assms unfolding send_busy[OF assms(1)] by auto

lemma reset_new:
  "reset (Hci_new None) =
      (0, \<lparr>cmdTimeout = 2000, cmdOpcode = 0x0C03, onCmdComplete = Some 0,
           timers = [(0, 2000)], sent = [[0x03, 0x0C, 0x00]], promises = [None],
           emitted = []\<rparr>)"
  by (simp add: reset_def reset_opcode send_def buildBuffer_reset Hci_new_def Let_def)

theorem send_while_pending_Busy_witness:
  "onCmdComplete (snd (reset (Hci_new None))) = Some 0
   \<and> send (snd (reset (Hci_new None))) \<lparr>opcode = 0x0C03, params = None\<rparr>
       = (1, \<lparr>cmdTimeout = 2000, cmdOpcode = 0x0C03, onCmdComplete = Some 0,
              timers = [(0, 2000)], sent = [[0x03, 0x0C, 0x00]],
              promises = [None, Some (Rejected (ParserError Busy))], emitted = []\<rparr>)
   \<and> sent \<lparr>cmdTimeout = 2000, cmdOpcode = 0x0C03, onCmdComplete = Some 0,
              timers = [(0, 2000)], sent = [[0x03, 0x0C, 0x00]],
              promises = [None, Some (Rejected (ParserError Busy))], emitted = []\<rparr>
       = sent (snd (reset (Hci_new None)))"
proof -
  have h1: "onCmdComplete (snd (reset (Hci_new None))) = Some 0"
    by (simp add: reset_new)
  have h2: "send (snd (reset (Hci_new None))) \<lparr>opcode = 0x0C03, params = None\<rparr>
       = (1, \<lparr>cmdTimeout = 2000, cmdOpcode = 0x0C03, onCmdComplete = Some 0,
              timers = [(0, 2000)], sent = [[0x03, 0x0C, 0x00]],
              promises = [None, Some (Rejected (ParserError Busy))], emitted = []\<rparr>)"
    by (simp add: reset_new send_def settle_def Let_def)
  from send_while_pending_Busy [OF h1 h2] h1 h2 show ?thesis by simp
qed


lemma list_length_ge_4:
  assumes "4 \<le> length xs"
  shows "\<exists>a b c d r. xs = a # b # c # d # r"
proof -
  from assms have "Suc (Suc (Suc (Suc 0))) \<le> length xs" by simp
  then show ?thesis by (auto simp: Suc_le_length_iff)
qed

lemma isCmdComplete_cases:
  assumes "isCmdComplete d"
  obtains l p0 p1 p2 p3 rest where
    "d = HCI_EVT_CMD_COMPLETE # l # p0 # p1 # p2 # p3 # rest"
    "unat l = length (p0 # p1 # p2 # p3 # rest)"
proof -
  from assms obtain e l payload where d: "d = e # l # payload"
    by (cases d rule: isCmdComplete.cases) auto
  from assms d have w: "unat l = length payload" "e = HCI_EVT_CMD_COMPLETE" "4 \<le> length payload"
    by auto
  from list_length_ge_4[OF w(3)] obtain p0 p1 p2 p3 rest
    where p: "payload = p0 # p1 # p2 # p3 # rest" by blast
  from d w p that show thesis by blast
qed

lemma onData_not_matching:
  assumes "isCmdComplete d" "cmdCompleteOpcode d \<noteq> cmdOpcode s"
  shows "onData s d = s"
proof -
  from assms(1) obtain l p0 p1 p2 p3 rest where
    d: "d = HCI_EVT_CMD_COMPLETE # l # p0 # p1 # p2 # p3 # rest"
    and u: "unat l = length (p0 # p1 # p2 # p3 # rest)"
    by (rule isCmdComplete_cases)
  from assms(2) have "le_value [p1, p2] \<noteq> cmdOpcode s"
    by (simp add: d cmdCompleteOpcode_def)
  then show ?thesis using u
    by (cases "onCmdComplete s") (simp_all add: d cmdCompleteHandler_def)
qed

lemma onData_matching:
  assumes "isCmdComplete d" "cmdCompleteOpcode d = cmdOpcode s" "onCmdComplete s = Some p"
  shows "onData s d =
     complete p
       (if uint (d ! 5) = HciErrorCode_Success
        then Inr \<lparr>numHciPackets = uint (d ! 2), evtOpcode = cmdOpcode s,
                  status = uint (d ! 5), returnParameters = drop 6 d\<rparr>
        else Inl (HciError (uint (d ! 5)))) s"
proof -
  from assms(1) obtain l p0 p1 p2 p3 rest where
    d: "d = HCI_EVT_CMD_COMPLETE # l # p0 # p1 # p2 # p3 # rest"
    and u: "unat l = length (p0 # p1 # p2 # p3 # rest)"
    by (rule isCmdComplete_cases)
  from assms(2) have "le_value [p1, p2] = cmdOpcode s"
    by (simp add: d cmdCompleteOpcode_def)
  then show ?thesis using u assms(3)
    by (simp add: d cmdCompleteHandler_def)
qed

lemma complete_pending:
  assumes "pending p r x s"
  shows "complete p res s =
     s\<lparr>timers := [], onCmdComplete := None,
       promises := (promises s)[p := Some (case res of Inl err \<Rightarrow> Rejected err
                                                 | Inr evt \<Rightarrow> Resolved evt)]\<rparr>"
  using assms
  by (cases res) (simp_all add: complete_def pending_def clearTimeout_def settle_def Let_def)

text \<open>
  Claim C3. While a command with opcode \<open>x\<close> is pending, a well-formed Command Complete event
  whose opcode differs from \<open>x\<close> leaves the whole state of the engine as it was: the promise
  stays unsettled, the slot stays occupied with opcode \<open>x\<close>, the timeout stays armed. The
  caller therefore still completes on a later matching Command Complete \<open>d'\<close> (resolved when
  its status is Success, rejected with the HciError of the status otherwise) and on the
  timeout (rejected with Timeout once the remaining \<open>r\<close> milliseconds have passed).
\<close>

theorem onData_other_opcode_ignored:
  assumes "pending p r x s"
    and "isCmdComplete d" and "cmdCompleteOpcode d \<noteq> x"
    and "isCmdComplete d'" and "cmdCompleteOpcode d' = x"
    and "r \<le> t"
  shows "onData s d = s
         \<and> pending p r x (onData s d)
         \<and> promises (onData (onData s d) d') ! p =
             Some (if uint (d' ! 5) = HciErrorCode_Success
                   then Resolved \<lparr>numHciPackets = uint (d' ! 2), evtOpcode = x,
                                  status = uint (d' ! 5), returnParameters = drop 6 d'\<rparr>
                   else Rejected (HciError (uint (d' ! 5))))
         \<and> promises (elapse t (onData s d)) ! p = Some (Rejected (ParserError Timeout))"
proof -
  from assms(1) have x: "cmdOpcode s = x" and slot: "onCmdComplete s = Some p"
    and tm: "timers s = [(p, r)]" and lt: "p < length (promises s)"
    by (simp_all add: pending_def)
  have same: "onData s d = s"
    using assms(2,3) x by (simp add: onData_not_matching)
  have later: "promises (onData s d') ! p =
             Some (if uint (d' ! 5) = HciErrorCode_Success
                   then Resolved \<lparr>numHciPackets = uint (d' ! 2), evtOpcode = x,
                                  status = uint (d' ! 5), returnParameters = drop 6 d'\<rparr>
                   else Rejected (HciError (uint (d' ! 5))))"
    using assms(4,5) x slot lt
    by (simp add: onData_matching complete_pending[OF assms(1)])
  have "elapse t s = timeoutCallback p (s\<lparr>timers := []\<rparr>)"
    using assms(6) tm by (simp add: elapse_def)
  also have "\<dots> = s\<lparr>timers := [], onCmdComplete := None,
       promises := (promises s)[p := Some (Rejected (ParserError Timeout))]\<rparr>"
    using assms(1)
    by (simp add: timeoutCallback_def complete_def pending_def clearTimeout_def settle_def Let_def)
  finally have "promises (elapse t s) ! p = Some (Rejected (ParserError Timeout))"
    using lt by simp
  with same later assms(1) show ?thesis by simp
qed

theorem onData_other_opcode_ignored_witness:
  "pending 0 2000 0x0C03 (snd (reset (Hci_new None)))
   \<and> isCmdComplete [0x0E, 0x04, 0x01, 0x04, 0x0C, 0x00]
   \<and> cmdCompleteOpcode [0x0E, 0x04, 0x01, 0x04, 0x0C, 0x00] \<noteq> 0x0C03
   \<and> isCmdComplete [0x0E, 0x04, 0x01, 0x03, 0x0C, 0x00]
   \<and> cmdCompleteOpcode [0x0E, 0x04, 0x01, 0x03, 0x0C, 0x00] = 0x0C03
   \<and> (2000::nat) \<le> 2000
   \<and> onData (snd (reset (Hci_new None))) [0x0E, 0x04, 0x01, 0x04, 0x0C, 0x00]
       = snd (reset (Hci_new None))"
proof -
  have h1: "pending 0 2000 0x0C03 (snd (reset (Hci_new None)))"
    by (simp add: reset_new pending_def)
  have h2: "isCmdComplete [0x0E, 0x04, 0x01, 0x04, 0x0C, 0x00]"
    by (simp add: HCI_EVT_CMD_COMPLETE_def)
  have h3: "cmdCompleteOpcode [0x0E, 0x04, 0x01, 0x04, 0x0C, 0x00] \<noteq> 0x0C03"
    by (simp add: cmdCompleteOpcode_def)
  have h4: "isCmdComplete [0x0E, 0x04, 0x01, 0x03, 0x0C, 0x00]"
    by (simp add: HCI_EVT_CMD_COMPLETE_def)
  have h5: "cmdCompleteOpcode [0x0E, 0x04, 0x01, 0x03, 0x0C, 0x00] = 0x0C03"
    by (simp add: cmdCompleteOpcode_def)
  have h6: "(2000::nat) \<le> 2000" by simp
  from onData_other_opcode_ignored [OF h1 h2 h3 h4 h5 h6] h1 h2 h3 h4 h5
  show ?thesis by simp
qed

text \<open>
  Claim C4. Submitting Reset to an idle engine hands exactly the bytes \<open>03 0C 00\<close> to the send
  callback; every packet that \<open>buildBuffer\<close> builds is the opcode as two little-endian bytes,
  one length byte and the parameters, the length byte being the length of the parameter
  buffer; and feeding the event bytes \<open>0E 04 01 03 0C 00\<close> back resolves the promise of the
  reset call.
\<close>

theorem reset_round_trip:
  assumes "slotInv s" and "onCmdComplete s = None"
    and "reset s = (p, s1)"
    and "buildBuffer cmd = Inr buf"
  shows "sent s1 = sent s @ [[0x03, 0x0C, 0x00]]
         \<and> buf = le_bytes 2 (opcode cmd)
                 @ [word_of_nat (length (case params cmd of None \<Rightarrow> [] | Some ps \<Rightarrow> ps))]
                 @ (case params cmd of None \<Rightarrow> [] | Some ps \<Rightarrow> ps)
         \<and> le_value (take 2 buf) = opcode cmd
         \<and> unat (buf ! 2) = length (case params cmd of None \<Rightarrow> [] | Some ps \<Rightarrow> ps)
         \<and> promises (onData s1 [0x0E, 0x04, 0x01, 0x03, 0x0C, 0x00]) ! p
             = Some (Resolved \<lparr>numHciPackets = 1, evtOpcode = 0x0C03, status = 0,
                               returnParameters = []\<rparr>)
         \<and> onCmdComplete (onData s1 [0x0E, 0x04, 0x01, 0x03, 0x0C, 0x00]) = None"
proof -
  let ?d = "[0x0E, 0x04, 0x01, 0x03, 0x0C, 0x00] :: bytes"
  from assms(1,2) have tm: "timers s = []" by (simp add: slotInv_def)
  have r: "reset s = (length (promises s),
            s\<lparr>promises := promises s @ [None],
              timers := timers s @ [(length (promises s), cmdTimeout s)],
              onCmdComplete := Some (length (promises s)),
              cmdOpcode := 0x0C03,
              sent := sent s @ [[0x03, 0x0C, 0x00]]\<rparr>)"
    unfolding reset_def reset_opcode
    using send_idle[OF assms(2) buildBuffer_reset] by simp
  from assms(3) r have p: "p = length (promises s)"
    and s1: "s1 = s\<lparr>promises := promises s @ [None],
              timers := timers s @ [(length (promises s), cmdTimeout s)],
              onCmdComplete := Some (length (promises s)),
              cmdOpcode := 0x0C03,
              sent := sent s @ [[0x03, 0x0C, 0x00]]\<rparr>"
    by auto
  have pend: "pending p (cmdTimeout s) 0x0C03 s1"
    by (simp add: pending_def s1 p tm)
  have c: "isCmdComplete ?d" by (simp add: HCI_EVT_CMD_COMPLETE_def)
  have o: "cmdCompleteOpcode ?d = cmdOpcode s1" by (simp add: cmdCompleteOpcode_def s1)
  have slot: "onCmdComplete s1 = Some p" by (simp add: s1 p)
  have od: "onData s1 ?d = s1\<lparr>timers := [], onCmdComplete := None,
       promises := (promises s1)[p := Some (Resolved \<lparr>numHciPackets = 1, evtOpcode = 0x0C03,
          status = 0, returnParameters = []\<rparr>)]\<rparr>"
    unfolding onData_matching[OF c o slot] complete_pending[OF pend]
    by (simp add: HciErrorCode_Success_def s1)
  have lt: "p < length (promises s1)" by (simp add: s1 p)
  have "word_of_int (int (length (case params cmd of None \<Rightarrow> [] | Some ps \<Rightarrow> ps)))
        = (word_of_nat (length (case params cmd of None \<Rightarrow> [] | Some ps \<Rightarrow> ps)) :: byte)"
    by simp
  moreover have "le_value (take 2 buf) = opcode cmd"
  proof -
    from assms(4) have "\<exists>b. buildBuffer cmd = Inr b" by blast
    then have "0 \<le> opcode cmd" "opcode cmd < 65536"
      unfolding buildBuffer_Inr_iff by simp_all
    then have "le_value (le_bytes 2 (opcode cmd)) = opcode cmd"
      by (rule le_value_le_bytes_2)
    then show ?thesis
      unfolding buildBuffer_layout[OF assms(4)] by simp
  qed
  ultimately show ?thesis
    using buildBuffer_layout[OF assms(4)] buildBuffer_param_len[OF assms(4)] od lt s1
    by simp
qed

theorem reset_round_trip_witness:
  "slotInv (Hci_new None) \<and> onCmdComplete (Hci_new None) = None
   \<and> reset (Hci_new None)
       = (0, \<lparr>cmdTimeout = 2000, cmdOpcode = 0x0C03, onCmdComplete = Some 0,
              timers = [(0, 2000)], sent = [[0x03, 0x0C, 0x00]], promises = [None],
              emitted = []\<rparr>)
   \<and> buildBuffer \<lparr>opcode = 0x2005, params = Some [1, 2, 3, 4, 5, 6]\<rparr>
       = Inr [0x05, 0x20, 0x06, 1, 2, 3, 4, 5, 6]
   \<and> promises (onData \<lparr>cmdTimeout = 2000, cmdOpcode = 0x0C03, onCmdComplete = Some 0,
              timers = [(0, 2000)], sent = [[0x03, 0x0C, 0x00]], promises = [None],
              emitted = []\<rparr> [0x0E, 0x04, 0x01, 0x03, 0x0C, 0x00]) ! 0
       = Some (Resolved \<lparr>numHciPackets = 1, evtOpcode = 0x0C03, status = 0,
                         returnParameters = []\<rparr>)"
proof -
  have h1: "slotInv (Hci_new None)" by (simp add: slotInv_def Hci_new_def)
  have h2: "onCmdComplete (Hci_new None) = None" by (simp add: Hci_new_def)
  have h4: "buildBuffer \<lparr>opcode = 0x2005, params = Some [1, 2, 3, 4, 5, 6]\<rparr>
       = Inr [0x05, 0x20, 0x06, 1, 2, 3, 4, 5, 6]"
    by (simp add: buildBuffer_def writeUInt16LE_def writeUInt8_def writeUIntLE_def
      Buffer_alloc_def Buffer_copy_def Let_def numeral_2_eq_2 numeral_3_eq_3 eval_nat_numeral)
  from reset_round_trip [OF h1 h2 reset_new h4] h1 h2 reset_new h4
  show ?thesis by simp
qed

lemma list_length_ge_4_cases:
  obtains "xs = []" | a where "xs = [a]" | a b where "xs = [a, b]"
    | a b c where "xs = [a, b, c]" | a b c d r where "xs = a # b # c # d # r"
proof (cases xs)
  case Nil
  then show ?thesis using that by blast
next
  case (Cons a ys)
  note c1 = this
  show ?thesis
  proof (cases ys)
    case Nil
    then show ?thesis using that c1 by blast
  next
    case (Cons b zs)
    note c2 = this
    show ?thesis
    proof (cases zs)
      case Nil
      then show ?thesis using that c1 c2 by blast
    next
      case (Cons c ws)
      then show ?thesis using that c1 c2 by (cases ws) auto
    qed
  qed
qed

lemma onData_no_handler_call:
  assumes "\<not> isCmdComplete d \<or> onCmdComplete s = None"
  shows "onData s d = s \<or> (\<exists>g. onData s d = emit g s)"
proof (cases "isCmdComplete d")
  case True
  with assms have n: "onCmdComplete s = None" by simp
  from True obtain l p0 p1 p2 p3 rest where
    d: "d = HCI_EVT_CMD_COMPLETE # l # p0 # p1 # p2 # p3 # rest"
    and u: "unat l = length (p0 # p1 # p2 # p3 # rest)"
    by (rule isCmdComplete_cases)
  show ?thesis using n u by (simp add: d)
next
  case False
  note ncc = this
  show ?thesis
  proof (cases d)
    case Nil
    then show ?thesis by simp
  next
    case (Cons eventCode t)
    note c1 = this
    show ?thesis
    proof (cases t)
      case Nil
      then show ?thesis using c1 by simp
    next
      case (Cons payloadLength payload)
      with c1 have d: "d = eventCode # payloadLength # payload" by simp
      show ?thesis
      proof (cases "unat payloadLength = length payload \<and> eventCode = HCI_EVT_CMD_COMPLETE")
        case True
        with ncc d have "\<not> 4 \<le> length payload" by simp
        then have "length payload < 4" by simp
        then have "onData s d = emit (EvtCmdCompleteInvalidPayloadSize (length payload)) s"
          using True unfolding d
          by (cases payload rule: list_length_ge_4_cases) simp_all
        then show ?thesis by blast
      next
        case False
        then show ?thesis unfolding d by auto
      qed
    qed
  qed
qed

lemma pending_emit: "pending p r x s \<Longrightarrow> pending p r x (emit g s)"
  by (simp add: pending_def emit_def)

lemma timedOut_emit: "timedOut p s \<Longrightarrow> timedOut p (emit g s)"
  by (simp add: timedOut_def emit_def)

lemma pending_step_Data:
  assumes "pending p r x s" "\<not> completes x (Data d)"
  shows "pending p r x (onData s d)"
proof (cases "isCmdComplete d")
  case True
  with assms have "cmdCompleteOpcode d \<noteq> cmdOpcode s" by (simp add: pending_def)
  with True assms(1) show ?thesis by (simp add: onData_not_matching)
next
  case False
  then have "onData s d = s \<or> (\<exists>g. onData s d = emit g s)"
    by (simp add: onData_no_handler_call)
  with assms(1) show ?thesis by (auto simp: pending_emit)
qed

lemma pending_elapse_early:
  assumes "pending p r x s" "d < r"
  shows "pending p (r - d) x (elapse d s)"
  using assms by (simp add: pending_def elapse_def)

lemma pending_elapse_due:
  assumes "pending p r x s" "r \<le> d"
  shows "timedOut p (elapse d s)"
  using assms
  by (simp add: pending_def timedOut_def elapse_def timeoutCallback_def complete_def
      clearTimeout_def settle_def Let_def)

lemma timedOut_step:
  assumes "timedOut p s"
  shows "timedOut p (step s e)"
proof (cases e)
  case (Data d)
  from assms have "onCmdComplete s = None" by (simp add: timedOut_def)
  then have "onData s d = s \<or> (\<exists>g. onData s d = emit g s)"
    by (simp add: onData_no_handler_call)
  with assms Data show ?thesis by (auto simp: timedOut_emit)
next
  case (Elapse d)
  with assms show ?thesis by (simp add: timedOut_def elapse_def)
qed

lemma timedOut_run: "timedOut p s \<Longrightarrow> timedOut p (run s es)"
  by (induction es arbitrary: s) (simp_all add: timedOut_step)

lemma pending_run_timeout:
  assumes "pending p r x s"
    and "\<forall>e \<in> set pre. \<not> completes x e"
    and "r \<le> elapsed pre + d"
  shows "timedOut p (run s (pre @ Elapse d # post))"
  using assms
proof (induction pre arbitrary: s r)
  case Nil
  then have "timedOut p (elapse d s)" by (simp add: pending_elapse_due)
  then show ?case by (simp add: timedOut_run)
next
  case (Cons e pre)
  show ?case
  proof (cases e)
    case (Data b)
    with Cons.prems have "pending p r x (onData s b)"
      by (simp add: pending_step_Data)
    moreover from Cons.prems Data have "r \<le> elapsed pre + d" by simp
    ultimately have "timedOut p (run (onData s b) (pre @ Elapse d # post))"
      using Cons.prems(2) by (intro Cons.IH) auto
    with Data show ?thesis by simp
  next
    case (Elapse t)
    show ?thesis
    proof (cases "r \<le> t")
      case True
      with Cons.prems have "timedOut p (elapse t s)" by (simp add: pending_elapse_due)
      then have "timedOut p (run (elapse t s) (pre @ Elapse d # post))"
        by (rule timedOut_run)
      with Elapse show ?thesis by simp
    next
      case False
      with Cons.prems have "pending p (r - t) x (elapse t s)"
        by (simp add: pending_elapse_early)
      moreover from Cons.prems Elapse False have "r - t \<le> elapsed pre + d" by simp
      ultimately have "timedOut p (run (elapse t s) (pre @ Elapse d # post))"
        using Cons.prems(2) by (intro Cons.IH) auto
      with Elapse show ?thesis by simp
    qed
  qed
qed

text \<open>
  Claim C2. A command is submitted to an idle engine and built into a packet. If none of the
  events \<open>pre\<close> that arrive before the timeout fires is a Command Complete with the pending
  opcode, and \<open>cmdTimeout\<close> milliseconds (2000 unless configured) have passed with the last
  of them, then the promise of the caller is rejected with Timeout and the slot is empty,
  whatever events \<open>post\<close> arrive afterwards; a command submitted then is not rejected with
  Busy: it occupies the slot and its packet is handed to the send callback.
\<close>

theorem timeout_clears_slot:
  assumes "slotInv s" and "onCmdComplete s = None"
    and "buildBuffer cmd = Inr pkt" and "send s cmd = (p, s1)"
    and "\<forall>e \<in> set pre. \<not> completes (opcode cmd) e"
    and "cmdTimeout s \<le> elapsed pre + d"
    and "s2 = run s1 (pre @ Elapse d # post)"
    and "buildBuffer cmd' = Inr pkt'" and "send s2 cmd' = (p', s3)"
  shows "cmdTimeout (Hci_new None) = 2000
         \<and> timers s1 = [(p, cmdTimeout s)]
         \<and> promises s2 ! p = Some (Rejected (ParserError Timeout))
         \<and> onCmdComplete s2 = None
         \<and> promises s3 ! p' = None
         \<and> onCmdComplete s3 = Some p'
         \<and> sent s3 = sent s2 @ [pkt']"
proof -
  from assms(1,2) have tm: "timers s = []" by (simp add: slotInv_def)
  from assms(4) send_idle[OF assms(2,3)]
  have p: "p = length (promises s)"
    and s1: "s1 = s\<lparr>promises := promises s @ [None],
              timers := timers s @ [(length (promises s), cmdTimeout s)],
              onCmdComplete := Some (length (promises s)),
              cmdOpcode := opcode cmd,
              sent := sent s @ [pkt]\<rparr>"
    by auto
  have pend: "pending p (cmdTimeout s) (opcode cmd) s1"
    by (simp add: pending_def s1 p tm)
  have t1: "timers s1 = [(p, cmdTimeout s)]" by (simp add: s1 p tm)
  from pending_run_timeout[OF pend assms(5,6)] assms(7)
  have out: "timedOut p s2" by simp
  then have idle: "onCmdComplete s2 = None" by (simp add: timedOut_def)
  from assms(9) send_idle[OF idle assms(8)]
  have p': "p' = length (promises s2)"
    and s3: "s3 = s2\<lparr>promises := promises s2 @ [None],
              timers := timers s2 @ [(length (promises s2), cmdTimeout s2)],
              onCmdComplete := Some (length (promises s2)),
              cmdOpcode := opcode cmd',
              sent := sent s2 @ [pkt']\<rparr>"
    by auto
  have "cmdTimeout (Hci_new None) = 2000" by (simp add: Hci_new_def)
  with out t1 show ?thesis by (simp add: timedOut_def s3 p')
qed

theorem timeout_clears_slot_witness:
  "slotInv (Hci_new (Some 50)) \<and> onCmdComplete (Hci_new (Some 50)) = None
   \<and> buildBuffer \<lparr>opcode = 0x0C03, params = None\<rparr> = Inr [0x03, 0x0C, 0x00]
   \<and> \<not> completes (opcode \<lparr>opcode = 0x0C03, params = None\<rparr>)
           (Data [0x0E, 0x04, 0x01, 0x04, 0x0C, 0x00])
   \<and> \<not> completes (opcode \<lparr>opcode = 0x0C03, params = None\<rparr>) (Elapse 20)
   \<and> cmdTimeout (Hci_new (Some 50))
       \<le> elapsed [Data [0x0E, 0x04, 0x01, 0x04, 0x0C, 0x00], Elapse 20] + 30
   \<and> promises (run (snd (send (Hci_new (Some 50)) \<lparr>opcode = 0x0C03, params = None\<rparr>))
                  ([Data [0x0E, 0x04, 0x01, 0x04, 0x0C, 0x00], Elapse 20]
                   @ Elapse 30 # [Data [0x0E, 0x04, 0x01, 0x03, 0x0C, 0x00]]))
        ! fst (send (Hci_new (Some 50)) \<lparr>opcode = 0x0C03, params = None\<rparr>)
       = Some (Rejected (ParserError Timeout))
   \<and> sent (snd (send (run (snd (send (Hci_new (Some 50)) \<lparr>opcode = 0x0C03, params = None\<rparr>))
                  ([Data [0x0E, 0x04, 0x01, 0x04, 0x0C, 0x00], Elapse 20]
                   @ Elapse 30 # [Data [0x0E, 0x04, 0x01, 0x03, 0x0C, 0x00]]))
               \<lparr>opcode = 0x0C03, params = None\<rparr>))
       = sent (run (snd (send (Hci_new (Some 50)) \<lparr>opcode = 0x0C03, params = None\<rparr>))
                  ([Data [0x0E, 0x04, 0x01, 0x04, 0x0C, 0x00], Elapse 20]
                   @ Elapse 30 # [Data [0x0E, 0x04, 0x01, 0x03, 0x0C, 0x00]]))
         @ [[0x03, 0x0C, 0x00]]"
proof -
  let ?cmd = "\<lparr>opcode = 0x0C03, params = None\<rparr>"
  let ?s = "Hci_new (Some 50)"
  let ?pre = "[Data [0x0E, 0x04, 0x01, 0x04, 0x0C, 0x00], Elapse 20]"
  let ?post = "[Data [0x0E, 0x04, 0x01, 0x03, 0x0C, 0x00]]"
  let ?s2 = "run (snd (send ?s ?cmd)) (?pre @ Elapse 30 # ?post)"
  have h1: "slotInv ?s" by (simp add: slotInv_def Hci_new_def)
  have h2: "onCmdComplete ?s = None" by (simp add: Hci_new_def)
  have h4: "send ?s ?cmd = (fst (send ?s ?cmd), snd (send ?s ?cmd))" by simp
  have h5: "\<forall>e \<in> set ?pre. \<not> completes (opcode ?cmd) e"
    by (simp add: cmdCompleteOpcode_def)
  have h6: "cmdTimeout ?s \<le> elapsed ?pre + 30" by (simp add: Hci_new_def)
  have h7: "?s2 = run (snd (send ?s ?cmd)) (?pre @ Elapse 30 # ?post)" by simp
  have h9: "send ?s2 ?cmd = (fst (send ?s2 ?cmd), snd (send ?s2 ?cmd))" by simp
  have h5': "\<not> completes (opcode ?cmd) (Data [0x0E, 0x04, 0x01, 0x04, 0x0C, 0x00])
      \<and> \<not> completes (opcode ?cmd) (Elapse 20)"
    using h5 by simp
  from timeout_clears_slot [OF h1 h2 buildBuffer_reset h4 h5 h6 h7 buildBuffer_reset h9]
    h1 h2 buildBuffer_reset h5' h6
  show ?thesis by blast
qed

lemma slotInv_new: "slotInv (Hci_new t)"
  by (simp add: slotInv_def Hci_new_def)

lemma slotInv_emit: "slotInv s \<Longrightarrow> slotInv (emit g s)"
  by (simp add: slotInv_def emit_def split: option.splits)

lemma slotInv_complete:
  assumes "slotInv s" "onCmdComplete s = Some p"
  shows "slotInv (complete p res s)"
proof -
  from assms have "map fst (timers s) = [p]" by (simp add: slotInv_def)
  then obtain r where "timers s = [(p, r)]" by (cases "timers s") auto
  then show ?thesis
    by (cases res) (simp_all add: slotInv_def complete_def clearTimeout_def Let_def)
qed

lemma slotInv_send:
  assumes "slotInv s"
  shows "slotInv (snd (send s cmd))"
proof (cases "onCmdComplete s")
  case None
  with assms have "timers s = []" by (simp add: slotInv_def)
  with None show ?thesis
    by (cases "buildBuffer cmd") (simp_all add: send_def slotInv_def Let_def)
next
  case (Some q)
  with assms show ?thesis by (simp add: send_busy slotInv_def)
qed

lemma slotInv_onData:
  assumes "slotInv s"
  shows "slotInv (onData s d)"
proof (cases "isCmdComplete d \<and> onCmdComplete s \<noteq> None")
  case True
  then obtain p where p: "onCmdComplete s = Some p" by auto
  show ?thesis
  proof (cases "cmdCompleteOpcode d = cmdOpcode s")
    case True
    with \<open>isCmdComplete d \<and> onCmdComplete s \<noteq> None\<close> p assms show ?thesis
      by (simp add: onData_matching slotInv_complete)
  next
    case False
    with \<open>isCmdComplete d \<and> onCmdComplete s \<noteq> None\<close> assms show ?thesis
      by (simp add: onData_not_matching)
  qed
next
  case False
  then have "onData s d = s \<or> (\<exists>g. onData s d = emit g s)"
    by (intro onData_no_handler_call) auto
  with assms show ?thesis by (auto simp: slotInv_emit)
qed

lemma slotInv_elapse:
  assumes "slotInv s"
  shows "slotInv (elapse d s)"
proof (cases "onCmdComplete s")
  case None
  with assms show ?thesis by (simp add: slotInv_def elapse_def)
next
  case (Some p)
  with assms have "map fst (timers s) = [p]" by (simp add: slotInv_def)
  then obtain r where "timers s = [(p, r)]" by (cases "timers s") auto
  with Some show ?thesis
    by (simp add: slotInv_def elapse_def timeoutCallback_def complete_def
      clearTimeout_def Let_def)
qed

lemma slotInv_run: "slotInv s \<Longrightarrow> slotInv (run s es)"
proof (induction es arbitrary: s)
  case Nil
  then show ?case by simp
next
  case (Cons e es)
  then show ?case by (cases e) (simp_all add: slotInv_onData slotInv_elapse)
qed

section \<open>Properties of the ATT codecs\<close>

lemma AttErrorRsp_serialize_example:
  "AttErrorRsp_serialize junk
     \<lparr>requestOpcodeInError = 0x08, attributeHandleInError = 0x0012, errorCode = 0x0A\<rparr>
   = Inr [0x01, 0x08, 0x12, 0x00, 0x0A]"
  by (simp add: AttErrorRsp_serialize_def AttErrorRsp_size_def Buffer_allocUnsafe_def
      writeUIntLE_def AttOpcode_ErrorRsp_def Let_def upt_rec numeral_2_eq_2)

lemma AttErrorRsp_deserialize_wrong_opcode:
  "AttErrorRsp_deserialize [0x02, 0x08, 0x12, 0x00, 0x0A] = Inr None"
  by (simp add: AttErrorRsp_deserialize_def readUInt8_def readUIntLE_def AttOpcode_ErrorRsp_def)

lemma AttErrorRsp_deserialize_wrong_length:
  assumes "buffer \<noteq> []" "length buffer \<noteq> 5"
  shows "AttErrorRsp_deserialize buffer = Inr None"
  using assms
  by (cases buffer)
     (simp_all add: AttErrorRsp_deserialize_def readUInt8_def readUIntLE_def
      AttErrorRsp_size_def)

lemma AttErrorRsp_deserialize_empty: "AttErrorRsp_deserialize [] = Inl RangeError"
  by (simp add: AttErrorRsp_deserialize_def readUInt8_def readUIntLE_def)

text \<open>
  Claim C6. The claim asks that \<open>deserialize\<close> gives back the record that \<open>serialize\<close> was
  given. The record \<open>{0x08, 0x0012, 0x0A}\<close> is serialized to \<open>01 08 12 00 0A\<close>, but
  \<open>deserialize\<close> reads its fields one byte too early: for these bytes it returns the opcode
  \<open>0x01\<close> as the request opcode, \<open>0x1208\<close> as the handle and \<open>0x00\<close> as the error code.
\<close>

theorem AttErrorRsp_deserialize_shifted:
  "AttErrorRsp_serialize junk
     \<lparr>requestOpcodeInError = 0x08, attributeHandleInError = 0x0012, errorCode = 0x0A\<rparr>
   = Inr [0x01, 0x08, 0x12, 0x00, 0x0A]
   \<and> AttErrorRsp_deserialize [0x01, 0x08, 0x12, 0x00, 0x0A]
   = Inr (Some \<lparr>requestOpcodeInError = 0x01, attributeHandleInError = 0x1208,
                  errorCode = 0x00\<rparr>)"
proof
  show "AttErrorRsp_serialize junk
     \<lparr>requestOpcodeInError = 0x08, attributeHandleInError = 0x0012, errorCode = 0x0A\<rparr>
   = Inr [0x01, 0x08, 0x12, 0x00, 0x0A]"
    by (rule AttErrorRsp_serialize_example)
  show "AttErrorRsp_deserialize [0x01, 0x08, 0x12, 0x00, 0x0A]
   = Inr (Some \<lparr>requestOpcodeInError = 0x01, attributeHandleInError = 0x1208,
                  errorCode = 0x00\<rparr>)"
    by code_simp
qed

theorem AttErrorRsp_deserialize_shifted_witness:
  "AttErrorRsp_serialize (\<lambda>a. 0)
     \<lparr>requestOpcodeInError = 0x08, attributeHandleInError = 0x0012, errorCode = 0x0A\<rparr>
   = Inr [0x01, 0x08, 0x12, 0x00, 0x0A]
   \<and> AttErrorRsp_deserialize [0x01, 0x08, 0x12, 0x00, 0x0A]
   \<noteq> Inr (Some \<lparr>requestOpcodeInError = 0x08, attributeHandleInError = 0x0012,
                     errorCode = 0x0A\<rparr>)"
  using AttErrorRsp_deserialize_shifted [of "\<lambda>a. 0"] by simp

lemma AttFindInformationRsp_deserialize_well_formed_16:
  "AttFindInformationRsp_deserialize [0x05, 0x01, 0x01, 0x00, 0x00, 0x28, 0x02, 0x00, 0x01, 0x28]
   = Inr (Some [\<lparr>handle = 1, uuid = [0x28, 0x00]\<rparr>, \<lparr>handle = 2, uuid = [0x28, 0x01]\<rparr>])"
  by code_simp

lemma AttFindInformationRsp_serialize_one_128:
  "AttFindInformationRsp_serialize junk
     [\<lparr>handle = 1, uuid = [0, 1, 2, 3, 4, 5, 6, 7, 8, 9, 10, 11, 12, 13, 14, 15]\<rparr>]
   = Inr [0x05, 0x02, 0x01, 0x00, 0, 1, 2, 3, 4, 5, 6, 7, 8, 9, 10, 11, 12, 13, 14, 15]"
  by (simp add: AttFindInformationRsp_serialize_def getUuidSize_def uuidSizeToFormat_def
      Buffer_allocUnsafe_def writeUIntLE_def AttOpcode_FindInformationRsp_def Buffer_copy_def
      Let_def upt_rec numeral_2_eq_2)

lemma AttFindInformationRsp_deserialize_one_128:
  "AttFindInformationRsp_deserialize
     [0x05, 0x02, 0x01, 0x00, 0, 1, 2, 3, 4, 5, 6, 7, 8, 9, 10, 11, 12, 13, 14, 15]
   = Inr None"
  by (simp add: AttFindInformationRsp_deserialize_def readUInt8_def readUIntLE_def
      AttOpcode_FindInformationRsp_def AttFindInformationRsp_minSize_def uuidFormatToSize_def)

text \<open>
  Claim C7. The claim asks for \<open>null\<close> whenever the length of the entries is not a multiple
  of the stride (4 for format 1). \<open>deserialize\<close> divides by the size of the UUID instead: the
  8 bytes \<open>05 01 01 00 00 28 02 00\<close>, with 6 bytes of entries, are decoded into two entries,
  the second with an empty UUID.
\<close>

theorem AttFindInformationRsp_deserialize_wrong_stride:
  "AttFindInformationRsp_deserialize [0x05, 0x01, 0x01, 0x00, 0x00, 0x28, 0x02, 0x00]
   = Inr (Some [\<lparr>handle = 1, uuid = [0x28, 0x00]\<rparr>, \<lparr>handle = 2, uuid = []\<rparr>])"
  by code_simp

theorem AttFindInformationRsp_deserialize_wrong_stride_witness:
  "AttFindInformationRsp_deserialize [0x05, 0x01, 0x01, 0x00, 0x00, 0x28, 0x02, 0x00]
   \<noteq> Inr None"
  using AttFindInformationRsp_deserialize_wrong_stride by simp

section \<open>Properties of AdvDataParser\<close>

lemma scanFields_reads_in_bounds:
  assumes "\<forall>i \<in> set reads. i < length adBuffer"
  shows "\<forall>i \<in> set (snd (scanFields adBuffer off flds reads)). i < length adBuffer"
  using assms
proof (induction adBuffer off flds reads rule: scanFields.induct)
  case (1 adBuffer off flds reads)
  show ?case
  proof (cases "off < length adBuffer")
    case False
    then show ?thesis using "1.prems" by (subst scanFields.simps) simp
  next
    case True
    note lt = this
    show ?thesis
    proof (cases "adBuffer ! off = 0 \<or> off + 1 \<ge> length adBuffer")
      case True
      have "\<forall>i \<in> set (reads @ [off]). i < length adBuffer"
        using "1.prems" lt by simp
      from "1.IH"(1)[OF lt True this] show ?thesis
        using lt True by (subst scanFields.simps) simp
    next
      case False
      then have "off + 1 < length adBuffer" by simp
      then have "\<forall>i \<in> set (reads @ [off, off + 1]). i < length adBuffer"
        using "1.prems" lt by simp
      from "1.IH"(2)[OF lt False this] show ?thesis
        using lt False by (subst scanFields.simps) simp
    qed
  qed
qed

lemma scanFields_acc:
  "fst (scanFields adBuffer off flds reads) = flds @ fst (scanFields adBuffer off [] [])"
proof (induction "length adBuffer - off" arbitrary: off flds reads rule: less_induct)
  case less
  show ?case
  proof (cases "off < length adBuffer")
    case False
    then show ?thesis
      by (subst scanFields.simps, subst (2) scanFields.simps) simp
  next
    case True
    note lt = this
    show ?thesis
    proof (cases "adBuffer ! off = 0 \<or> off + 1 \<ge> length adBuffer")
      case True
      have m: "length adBuffer - (off + 1) < length adBuffer - off" using lt by simp
      have "fst (scanFields adBuffer (off + 1) flds (reads @ [off]))
            = flds @ fst (scanFields adBuffer (off + 1) [] [])"
        by (rule less[OF m])
      moreover have "fst (scanFields adBuffer (off + 1) [] ([] @ [off]))
            = [] @ fst (scanFields adBuffer (off + 1) [] [])"
        by (rule less[OF m])
      ultimately show ?thesis using lt True
        by (subst scanFields.simps, subst (2) scanFields.simps) simp
    next
      case False
      let ?o = "off + 2 + (unat (adBuffer ! off) - 1)"
      let ?f = "\<lparr>fieldType = adBuffer ! (off + 1),
                 fieldData = Buffer_slice adBuffer (off + 2) ?o\<rparr>"
      have m: "length adBuffer - ?o < length adBuffer - off" using lt by simp
      have "fst (scanFields adBuffer ?o (flds @ [?f]) (reads @ [off, off + 1]))
            = (flds @ [?f]) @ fst (scanFields adBuffer ?o [] [])"
        by (rule less[OF m])
      moreover have "fst (scanFields adBuffer ?o ([] @ [?f]) ([] @ [off, off + 1]))
            = ([] @ [?f]) @ fst (scanFields adBuffer ?o [] [])"
        by (rule less[OF m])
      ultimately show ?thesis using lt False
        by (subst scanFields.simps, subst (2) scanFields.simps) simp
    qed
  qed
qed

lemma scanFields_past_end:
  "length adBuffer \<le> off \<Longrightarrow> scanFields adBuffer off flds reads = (flds, reads)"
  by (subst scanFields.simps) simp

lemma scanFields_Cons:
  "fst (scanFields (x # xs) (Suc off) [] []) = fst (scanFields xs off [] [])"
proof (induction "length xs - off" arbitrary: off rule: less_induct)
  case less
  show ?case
  proof (cases "off < length xs")
    case False
    then show ?thesis by (simp add: scanFields_past_end)
  next
    case True
    note lt = this
    show ?thesis
    proof (cases "xs ! off = 0 \<or> off + 1 \<ge> length xs")
      case True
      have m: "length xs - (off + 1) < length xs - off" using lt by simp
      have "fst (scanFields (x # xs) (Suc (off + 1)) [] [])
            = fst (scanFields xs (off + 1) [] [])"
        by (rule less[OF m])
      then have "fst (scanFields (x # xs) (Suc off + 1) [] [Suc off])
            = fst (scanFields xs (off + 1) [] [off])"
        using scanFields_acc[of "x # xs" "Suc off + 1" "[]" "[Suc off]"]
          scanFields_acc[of xs "off + 1" "[]" "[off]"] by simp
      then show ?thesis using lt True
        by (subst scanFields.simps, subst (2) scanFields.simps) auto
    next
      case False
      let ?n = "unat (xs ! off) - 1"
      let ?f = "\<lparr>fieldType = xs ! (off + 1),
                 fieldData = Buffer_slice xs (off + 2) (off + 2 + ?n)\<rparr>"
      have m: "length xs - (off + 2 + ?n) < length xs - off" using lt by simp
      have "fst (scanFields (x # xs) (Suc (off + 2 + ?n)) [] [])
            = fst (scanFields xs (off + 2 + ?n) [] [])"
        by (rule less[OF m])
      then have "fst (scanFields (x # xs) (Suc off + 2 + ?n) [?f] [Suc off, Suc off + 1])
            = fst (scanFields xs (off + 2 + ?n) [?f] [off, off + 1])"
        using scanFields_acc[of "x # xs" "Suc off + 2 + ?n" "[?f]" "[Suc off, Suc off + 1]"]
          scanFields_acc[of xs "off + 2 + ?n" "[?f]" "[off, off + 1]"] by simp
      moreover have "Buffer_slice (x # xs) (Suc off + 2) (Suc off + 2 + ?n)
            = Buffer_slice xs (off + 2) (off + 2 + ?n)"
        by (simp add: Buffer_slice_def)
      ultimately show ?thesis using lt False
        by (subst scanFields.simps, subst (2) scanFields.simps) auto
    qed
  qed
qed

lemma scanFields_append:
  "fst (scanFields (pre @ xs) (length pre + off) [] []) = fst (scanFields xs off [] [])"
  by (induction pre) (simp_all add: scanFields_Cons)

lemma scanFields_zero_length:
  "fst (scanFields (0 # rest) 0 [] []) = fst (scanFields rest 0 [] [])"
proof -
  have "fst (scanFields (0 # rest) 0 [] []) = fst (scanFields (0 # rest) (Suc 0) [] [0])"
    by (subst scanFields.simps) simp
  also have "\<dots> = fst (scanFields (0 # rest) (Suc 0) [] [])"
    using scanFields_acc[of "0 # rest" "Suc 0" "[]" "[0]"] by simp
  also have "\<dots> = fst (scanFields rest 0 [] [])"
    by (rule scanFields_Cons)
  finally show ?thesis .
qed

lemma scanFields_last_byte: "fst (scanFields [l] 0 [] []) = []"
  by (subst scanFields.simps) (simp add: scanFields_past_end)

lemma scanFields_record:
  assumes "l \<noteq> 0"
  shows "fst (scanFields (l # t # rest) 0 [] [])
         = \<lparr>fieldType = t, fieldData = take (unat l - 1) rest\<rparr>
           # fst (scanFields (drop (unat l - 1) rest) 0 [] [])"
proof -
  let ?n = "unat l - 1"
  let ?f = "\<lparr>fieldType = t, fieldData = take ?n rest\<rparr>"
  have "fst (scanFields (l # t # rest) 0 [] [])
        = fst (scanFields (l # t # rest) (2 + ?n) [?f] [0, 1])"
    using assms by (subst scanFields.simps) (simp add: Buffer_slice_def)
  also have "\<dots> = ?f # fst (scanFields (l # t # rest) (2 + ?n) [] [])"
    using scanFields_acc[of "l # t # rest" "2 + ?n" "[?f]" "[0, 1]"] by simp
  also have "fst (scanFields (l # t # rest) (2 + ?n) [] [])
        = fst (scanFields (drop ?n rest) 0 [] [])"
  proof (cases "?n \<le> length rest")
    case True
    have "l # t # rest = (l # t # take ?n rest) @ drop ?n rest" by simp
    moreover have "2 + ?n = length (l # t # take ?n rest) + 0" using True by simp
    ultimately show ?thesis using scanFields_append[of "l # t # take ?n rest" "drop ?n rest" 0]
      by metis
  next
    case False
    then show ?thesis by (simp add: scanFields_past_end)
  qed
  finally show ?thesis .
qed

lemma parse_throws_on_empty_TxPowerLevel:
  "parse asciiDecode (Some [0x01, 0x0A]) = Inl RangeError"
  by code_simp

text \<open>
  Claim C8, as stated, fails: the record \<open>05 FF 59 00 01\<close> declares four bytes of value and
  the buffer holds three. It is not skipped: the scanner makes a field of the three bytes
  and \<open>parse\<close> reports manufacturer data from it.
\<close>

theorem parse_overrun_not_skipped:
  "fst (scanFields [0x05, 0xFF, 0x59, 0x00, 0x01] 0 [] [])
     = [\<lparr>fieldType = 0xFF, fieldData = [0x59, 0x00, 0x01]\<rparr>]
   \<and> parse asciiDecode (Some [0x05, 0xFF, 0x59, 0x00, 0x01])
     = Inr \<lparr>flags = None, serviceUuids = None, serviceSolicitationUuids = None,
            localName = None, shortenedLocalName = None, completeLocalName = None,
            txPowerLevel = None, manufacturerData = Some (0x59, [0x01]),
            serviceData = None\<rparr>"
  by code_simp

text \<open>
  Claim C8, amended. The scanning loop of \<open>parse\<close> terminates for every buffer (\<open>scanFields\<close>
  is a total function) and reads only elements inside the buffer. A zero length byte is
  skipped and the bytes after it are parsed as they would be without it; a length byte that
  is the last byte of the buffer is skipped; both contribute nothing to the result. A record
  that has its type byte is never skipped: its value is what the buffer holds of the
  declared \<open>len - 1\<close> bytes, cut at the end of the buffer, and scanning goes on behind it.
\<close>

theorem parse_scans_records:
  assumes "l \<noteq> 0"
  shows "(\<forall>i \<in> set (snd (scanFields adBuffer 0 [] [])). i < length adBuffer)
         \<and> parse decode (Some (0 # rest)) = parse decode (Some rest)
         \<and> parse decode (Some [l]) = Inr AdvData_empty
         \<and> fst (scanFields (l # t # val) 0 [] [])
             = \<lparr>fieldType = t, fieldData = take (unat l - 1) val\<rparr>
               # fst (scanFields (drop (unat l - 1) val) 0 [] [])
         \<and> parse decode (Some (l # t # val))
             = (case parseField decode AdvData_empty
                       \<lparr>fieldType = t, fieldData = take (unat l - 1) val\<rparr> of
                  Inl e \<Rightarrow> Inl e
                | Inr ad \<Rightarrow>
                    parseFields decode ad (fst (scanFields (drop (unat l - 1) val) 0 [] [])))"
proof -
  have "\<forall>i \<in> set (snd (scanFields adBuffer 0 [] [])). i < length adBuffer"
    by (rule scanFields_reads_in_bounds) simp
  moreover have "parse decode (Some (0 # rest)) = parse decode (Some rest)"
    by (simp add: parse_def scanFields_zero_length)
  moreover have "parse decode (Some [l]) = Inr AdvData_empty"
    by (simp add: parse_def scanFields_last_byte)
  moreover note scanFields_record[OF assms, of t val]
  moreover have "parse decode (Some (l # t # val))
             = (case parseField decode AdvData_empty
                       \<lparr>fieldType = t, fieldData = take (unat l - 1) val\<rparr> of
                  Inl e \<Rightarrow> Inl e
                | Inr ad \<Rightarrow>
                    parseFields decode ad (fst (scanFields (drop (unat l - 1) val) 0 [] [])))"
    by (simp only: parse_def option.case scanFields_record[OF assms] parseFields.simps)
  ultimately show ?thesis by blast
qed

theorem parse_scans_records_witness:
  "(0x03 :: byte) \<noteq> 0
   \<and> parse asciiDecode (Some [0x00, 0x03, 0x03, 0x0F, 0x18, 0x07])
       = parse asciiDecode (Some [0x03, 0x03, 0x0F, 0x18, 0x07])
   \<and> fst (scanFields [0x03, 0x03, 0x0F, 0x18, 0x07] 0 [] [])
       = \<lparr>fieldType = 0x03, fieldData = take (unat (0x03 :: byte) - 1) [0x0F, 0x18, 0x07]\<rparr>
         # fst (scanFields (drop (unat (0x03 :: byte) - 1) [0x0F, 0x18, 0x07]) 0 [] [])"
proof -
  have h: "(0x03 :: byte) \<noteq> 0" by simp
  from parse_scans_records [where l = "0x03"
      and adBuffer = "[0x00, 0x03, 0x03, 0x0F, 0x18, 0x07]"
      and decode = asciiDecode and rest = "[0x03, 0x03, 0x0F, 0x18, 0x07]"
      and t = "0x03" and val = "[0x0F, 0x18, 0x07]", OF h] h
  show ?thesis by blast
qed

section \<open>Properties of LeEncrypt\<close>

lemma contents_length [simp]: "length (contents m b) = byteLength b"
  by (simp add: contents_def)

lemma contents_nth:
  "i < byteLength b \<Longrightarrow> contents m b ! i = cells m (byteOffset b + i)"
  by (simp add: contents_def)

lemma LeEncrypt_inParams_cells:
  assumes "byteLength key = 16" "byteLength plaintextData = 16"
  shows "LeEncrypt_inParams key plaintextData m =
     Inr (\<lparr>byteOffset = brk m, byteLength = 32\<rparr>,
          heap_copy plaintextData \<lparr>byteOffset = brk m, byteLength = 32\<rparr> 16
            (heap_reverse plaintextData
              (heap_copy key \<lparr>byteOffset = brk m, byteLength = 32\<rparr> 0
                (heap_reverse key (m\<lparr>brk := brk m + 32\<rparr>)))))"
  using assms by (simp add: LeEncrypt_inParams_def heap_allocUnsafe_def Let_def)

lemma LeEncrypt_inParams_effect:
  assumes len: "byteLength key = 16" "byteLength plaintextData = 16"
    and al: "allocated m key" "allocated m plaintextData"
    and dj: "disjoint key plaintextData"
    and res: "LeEncrypt_inParams key plaintextData m = Inr (payload, m')"
  shows "payload = \<lparr>byteOffset = brk m, byteLength = 32\<rparr>"
    and "contents m' payload = rev (contents m key) @ rev (contents m plaintextData)"
    and "contents m' key = rev (contents m key)"
    and "contents m' plaintextData = rev (contents m plaintextData)"
proof -
  from res LeEncrypt_inParams_cells[OF len, of m]
  have p: "payload = \<lparr>byteOffset = brk m, byteLength = 32\<rparr>"
    and m': "m' = heap_copy plaintextData \<lparr>byteOffset = brk m, byteLength = 32\<rparr> 16
            (heap_reverse plaintextData
              (heap_copy key \<lparr>byteOffset = brk m, byteLength = 32\<rparr> 0
                (heap_reverse key (m\<lparr>brk := brk m + 32\<rparr>))))"
    by auto
  show "payload = \<lparr>byteOffset = brk m, byteLength = 32\<rparr>" by (rule p)
  from al len have k: "byteOffset key + 16 \<le> brk m" and t: "byteOffset plaintextData + 16 \<le> brk m"
    by (simp_all add: allocated_def)
  from dj len have d: "byteOffset key + 16 \<le> byteOffset plaintextData
      \<or> byteOffset plaintextData + 16 \<le> byteOffset key"
    by (simp add: disjoint_def)
  show "contents m' key = rev (contents m key)"
  proof (rule nth_equalityI)
    show "length (contents m' key) = length (rev (contents m key))" by simp
    fix i assume "i < length (contents m' key)"
    then have i: "i < 16" using len by simp
    then show "contents m' key ! i = rev (contents m key) ! i"
      using k t d len
      by (auto simp: rev_nth contents_nth m' heap_copy_def heap_reverse_def Let_def)
  qed
  show "contents m' plaintextData = rev (contents m plaintextData)"
  proof (rule nth_equalityI)
    show "length (contents m' plaintextData) = length (rev (contents m plaintextData))" by simp
    fix i assume "i < length (contents m' plaintextData)"
    then have i: "i < 16" using len by simp
    then show "contents m' plaintextData ! i = rev (contents m plaintextData) ! i"
      using k t d len
      by (auto simp: rev_nth contents_nth m' heap_copy_def heap_reverse_def Let_def)
  qed
  show "contents m' payload = rev (contents m key) @ rev (contents m plaintextData)"
  proof (rule nth_equalityI)
    show "length (contents m' payload)
          = length (rev (contents m key) @ rev (contents m plaintextData))"
      using len by (simp add: p)
    fix i assume "i < length (contents m' payload)"
    then have i: "i < 32" by (simp add: p)
    show "contents m' payload ! i = (rev (contents m key) @ rev (contents m plaintextData)) ! i"
    proof (cases "i < 16")
      case True
      then show ?thesis using k t d len
        by (auto simp: nth_append rev_nth contents_nth p m' heap_copy_def heap_reverse_def
            Let_def)
    next
      case False
      then have "i - 16 < 16" using i by simp
      then show ?thesis using False i k t d len
        by (auto simp: nth_append rev_nth contents_nth p m' heap_copy_def heap_reverse_def
            Let_def)
    qed
  qed
qed

lemma LeEncrypt_inParams_same_buffer:
  "contents (snd (projr (LeEncrypt_inParams \<lparr>byteOffset = 0, byteLength = 16\<rparr>
                          \<lparr>byteOffset = 0, byteLength = 16\<rparr> \<lparr>cells = of_nat, brk = 16\<rparr>)))
     \<lparr>byteOffset = 16, byteLength = 32\<rparr>
   = [15, 14, 13, 12, 11, 10, 9, 8, 7, 6, 5, 4, 3, 2, 1, 0,
      0, 1, 2, 3, 4, 5, 6, 7, 8, 9, 10, 11, 12, 13, 14, 15]"
  by code_simp

text \<open>
  Claim C9, as stated, fails: the call changes the buffers of the caller. With the key
  \<open>00 01 \<dots> 0F\<close> at the addresses 0 to 15 and the plaintext behind it, the call succeeds
  and the key buffer holds \<open>0F 0E \<dots> 00\<close> afterwards.
\<close>

theorem LeEncrypt_inParams_modifies_key:
  "\<not> isl (LeEncrypt_inParams \<lparr>byteOffset = 0, byteLength = 16\<rparr>
             \<lparr>byteOffset = 16, byteLength = 16\<rparr> \<lparr>cells = of_nat, brk = 32\<rparr>)
   \<and> contents \<lparr>cells = of_nat, brk = 32\<rparr> \<lparr>byteOffset = 0, byteLength = 16\<rparr>
       = [0, 1, 2, 3, 4, 5, 6, 7, 8, 9, 10, 11, 12, 13, 14, 15]
   \<and> contents (snd (projr (LeEncrypt_inParams \<lparr>byteOffset = 0, byteLength = 16\<rparr>
                 \<lparr>byteOffset = 16, byteLength = 16\<rparr> \<lparr>cells = of_nat, brk = 32\<rparr>)))
         \<lparr>byteOffset = 0, byteLength = 16\<rparr>
       = [15, 14, 13, 12, 11, 10, 9, 8, 7, 6, 5, 4, 3, 2, 1, 0]"
  by code_simp

text \<open>
  Claim C9, amended. \<open>inParams\<close> throws InvalidCommandParameter unless both buffers have
  length 16. For a key and a plaintext of length 16 that do not overlap in memory it returns
  a newly allocated payload of 32 bytes, the key reversed followed by the plaintext
  reversed, and it reverses the key buffer and the plaintext buffer of the caller in place.
\<close>

theorem LeEncrypt_inParams_reverses_in_place:
  assumes "byteLength key = 16" and "byteLength plaintextData = 16"
    and "allocated m key" and "allocated m plaintextData"
    and "disjoint key plaintextData"
    and "byteLength k \<noteq> 16 \<or> byteLength p \<noteq> 16"
  shows "(\<exists>payload m'.
            LeEncrypt_inParams key plaintextData m = Inr (payload, m')
            \<and> byteOffset payload = brk m \<and> byteLength payload = 32
            \<and> contents m' payload = rev (contents m key) @ rev (contents m plaintextData)
            \<and> contents m' key = rev (contents m key)
            \<and> contents m' plaintextData = rev (contents m plaintextData))
         \<and> LeEncrypt_inParams k p m = Inl (HciError HciErrorCode_InvalidCommandParameter)"
proof
  from LeEncrypt_inParams_cells[OF assms(1,2), of m]
  obtain payload m' where r: "LeEncrypt_inParams key plaintextData m = Inr (payload, m')"
    by blast
  from LeEncrypt_inParams_effect[OF assms(1-5) r] r
  show "\<exists>payload m'.
            LeEncrypt_inParams key plaintextData m = Inr (payload, m')
            \<and> byteOffset payload = brk m \<and> byteLength payload = 32
            \<and> contents m' payload = rev (contents m key) @ rev (contents m plaintextData)
            \<and> contents m' key = rev (contents m key)
            \<and> contents m' plaintextData = rev (contents m plaintextData)"
    by auto
  from assms(6)
  show "LeEncrypt_inParams k p m = Inl (HciError HciErrorCode_InvalidCommandParameter)"
    by (auto simp: LeEncrypt_inParams_def)
qed

theorem LeEncrypt_inParams_reverses_in_place_witness:
  "byteLength \<lparr>byteOffset = 0, byteLength = 16\<rparr> = 16
   \<and> byteLength \<lparr>byteOffset = 16, byteLength = 16\<rparr> = 16
   \<and> allocated \<lparr>cells = of_nat, brk = 32\<rparr> \<lparr>byteOffset = 0, byteLength = 16\<rparr>
   \<and> allocated \<lparr>cells = of_nat, brk = 32\<rparr> \<lparr>byteOffset = 16, byteLength = 16\<rparr>
   \<and> disjoint \<lparr>byteOffset = 0, byteLength = 16\<rparr> \<lparr>byteOffset = 16, byteLength = 16\<rparr>
   \<and> byteLength \<lparr>byteOffset = 0, byteLength = 15\<rparr> \<noteq> 16
   \<and> LeEncrypt_inParams \<lparr>byteOffset = 0, byteLength = 15\<rparr> \<lparr>byteOffset = 16, byteLength = 16\<rparr>
         \<lparr>cells = of_nat, brk = 32\<rparr>
       = Inl (HciError HciErrorCode_InvalidCommandParameter)
   \<and> (\<exists>payload m'.
         LeEncrypt_inParams \<lparr>byteOffset = 0, byteLength = 16\<rparr>
             \<lparr>byteOffset = 16, byteLength = 16\<rparr> \<lparr>cells = of_nat, brk = 32\<rparr>
           = Inr (payload, m')
         \<and> contents m' \<lparr>byteOffset = 0, byteLength = 16\<rparr>
           = rev (contents \<lparr>cells = of_nat, brk = 32\<rparr> \<lparr>byteOffset = 0, byteLength = 16\<rparr>))"
proof -
  let ?k = "\<lparr>byteOffset = 0, byteLength = 16\<rparr>"
  let ?p = "\<lparr>byteOffset = 16, byteLength = 16\<rparr>"
  let ?m = "\<lparr>cells = of_nat, brk = 32\<rparr> :: Memory"
  let ?k' = "\<lparr>byteOffset = 0, byteLength = 15\<rparr>"
  have h1: "byteLength ?k = 16" by simp
  have h2: "byteLength ?p = 16" by simp
  have h3: "allocated ?m ?k" by (simp add: allocated_def)
  have h4: "allocated ?m ?p" by (simp add: allocated_def)
  have h5: "disjoint ?k ?p" by (simp add: disjoint_def)
  have h6: "byteLength ?k' \<noteq> 16 \<or> byteLength ?p \<noteq> 16" by simp
  have h6': "byteLength ?k' \<noteq> 16" by simp
  from LeEncrypt_inParams_reverses_in_place [OF h1 h2 h3 h4 h5 h6] h1 h2 h3 h4 h5 h6'
  show ?thesis by blast
qed

section \<open>Properties of LeSupportedStates\<close>

lemma fromBitmask_loop_filter:
  "fromBitmask_loop bitmask b sts
   = sts @ map (\<lambda>b. LeAllowedStates ! b) (filter (\<lambda>b. bit bitmask b) [b..<42])"
proof (induction bitmask b sts rule: fromBitmask_loop.induct)
  case (1 bitmask b sts)
  show ?case
  proof (cases "b \<le> 41")
    case True
    then have u: "[b..<42] = b # [b + 1..<42]" by (simp add: upt_conv_Cons)
    have t: "(bitmask AND push_bit b 1 \<noteq> 0) = bit bitmask b"
      by (simp only: bit_iff_and_push_bit_not_eq_0)
    have "fromBitmask_loop bitmask b sts
          = fromBitmask_loop bitmask (b + 1)
              (if bit bitmask b then sts @ [LeAllowedStates ! b] else sts)"
      using True by (subst fromBitmask_loop.simps) (simp only: t if_True)
    also have "\<dots> = (if bit bitmask b then sts @ [LeAllowedStates ! b] else sts)
          @ map (\<lambda>b. LeAllowedStates ! b) (filter (\<lambda>b. bit bitmask b) [b + 1..<42])"
      using "1.IH"[OF True] by (simp only: t)
    also have "\<dots> = sts @ map (\<lambda>b. LeAllowedStates ! b) (filter (\<lambda>b. bit bitmask b) [b..<42])"
      by (simp add: u)
    finally show ?thesis .
  next
    case False
    then show ?thesis by (subst fromBitmask_loop.simps) simp
  qed
qed

text \<open>
  Claim C10. The result of \<open>fromBitmask\<close> lists the entries \<open>LeAllowedStates[b]\<close> of the bits
  \<open>b\<close> that are set among the bits 0 to 41, in increasing order of \<open>b\<close>. It depends on
  these bits only: two masks that agree on the bits 0 to 41 have the same result, and
  setting a bit \<open>k\<close> from 42 upwards, in particular one of the bits 42 to 63, does not
  change it.
\<close>

theorem fromBitmask_bits_0_to_41:
  assumes "42 \<le> k" and "\<forall>b < 42. bit other b = bit bitmask b"
  shows "states (fromBitmask bitmask)
           = map (\<lambda>b. LeAllowedStates ! b) (filter (\<lambda>b. bit bitmask b) [0..<42])
         \<and> fromBitmask (set_bit k bitmask) = fromBitmask bitmask
         \<and> fromBitmask other = fromBitmask bitmask"
proof (intro conjI)
  show "states (fromBitmask bitmask)
           = map (\<lambda>b. LeAllowedStates ! b) (filter (\<lambda>b. bit bitmask b) [0..<42])"
    by (simp add: fromBitmask_def fromBitmask_loop_filter)
  have "filter (\<lambda>b. bit (set_bit k bitmask) b) [0..<42] = filter (\<lambda>b. bit bitmask b) [0..<42]"
    using assms(1) by (intro filter_cong) (auto simp: bit_set_bit_iff)
  then show "fromBitmask (set_bit k bitmask) = fromBitmask bitmask"
    by (simp add: fromBitmask_def fromBitmask_loop_filter)
  have "filter (\<lambda>b. bit other b) [0..<42] = filter (\<lambda>b. bit bitmask b) [0..<42]"
    using assms(2) by (intro filter_cong) auto
  then show "fromBitmask other = fromBitmask bitmask"
    by (simp add: fromBitmask_def fromBitmask_loop_filter)
qed

theorem fromBitmask_bits_0_to_41_witness:
  "(42::nat) \<le> 63
   \<and> (\<forall>b. b < 42 \<and> bit (set_bit 50 (0x105 :: int)) b = bit (0x105 :: int) b
          \<or> 42 \<le> b)
   \<and> fromBitmask (set_bit 63 0x105) = fromBitmask 0x105
   \<and> fromBitmask (set_bit 50 0x105) = fromBitmask 0x105"
proof -
  have h1: "(42::nat) \<le> 63" by simp
  have g: "\<forall>b < 42. bit (set_bit 50 a) b = bit a b" for a :: int
    by (auto simp: bit_set_bit_iff)
  have h2: "\<forall>b < 42. bit (set_bit 50 (0x105 :: int)) b = bit (0x105 :: int) b"
    by (rule g)
  have h2': "\<forall>b. b < 42 \<and> bit (set_bit 50 (0x105 :: int)) b = bit (0x105 :: int) b
          \<or> 42 \<le> b"
    using h2 by (metis not_le)
  from fromBitmask_bits_0_to_41 [OF h1 h2] h1 h2' show ?thesis by blast
qed

lemma fromBitmask_example:
  "fromBitmask 0x105
   = \<lparr>states = [[NonConnNonScanUndirectAdv], [ConnScanUndirectAdv],
                 [NonConnNonScanUndirectAdv, PassiveScanning]]\<rparr>"
  by code_simp

end
